theory Spec2Isabelle
  imports Main
begin

section \<open>Constants of socket.h\<close>

text \<open>
  \<^verbatim>\<open>MAX_USER_MSG\<close> is 128, \<^verbatim>\<open>MAX_PROTO_MSG\<close> is \<^verbatim>\<open>MAX_USER_MSG+2\<close> and
  \<^verbatim>\<open>BUF_SIZE\<close> is \<^verbatim>\<open>MAX_PROTO_MSG+1\<close>. The macros carry no parentheses, but in
  every place the sources use them (an array size, \<^verbatim>\<open>BUF_SIZE - *inbuf\<close>,
  \<^verbatim>\<open>BUF_SIZE-2\<close>, comparisons) the expansion has the value written here.
  C's \<^verbatim>\<open>int\<close> is modelled by \<^typ>\<open>int\<close>; the buffer arithmetic stays between
  \<open>-1\<close> and \<open>133\<close>, far from any overflow.
\<close>

definition MAX_USER_MSG :: int where
  "MAX_USER_MSG = 128"

definition MAX_PROTO_MSG :: int where
  "MAX_PROTO_MSG = MAX_USER_MSG + 2"

definition BUF_SIZE :: int where
  "BUF_SIZE = MAX_PROTO_MSG + 1"

abbreviation CR :: char where
  "CR \<equiv> CHR 0x0D"

abbreviation LF :: char where
  "LF \<equiv> CHR 0x0A"

abbreviation NUL :: char where
  "NUL \<equiv> CHR 0x00"

abbreviation CRLF :: string where
  "CRLF \<equiv> [CR, LF]"

section \<open>The kernel as the program sees it\<close>

text \<open>
  The sources talk to the kernel through \<^verbatim>\<open>read\<close>, \<^verbatim>\<open>write\<close> and \<^verbatim>\<open>close\<close> on
  descriptors. The kernel state holds, per descriptor, whether it is open, the outcomes
  the coming \<^verbatim>\<open>read\<close> calls will meet, the outcomes the coming \<^verbatim>\<open>write\<close> calls will
  meet, and the bytes the kernel has accepted for the peer so far. It also holds what the
  program has printed on its terminal.

  A pending \<open>Bytes bs\<close> is a chunk of the stream that has arrived; a read picks up as
  much of it as the caller asked for and leaves the rest pending. \<open>Fail\<close> is a read
  that returns \<open>-1\<close>. A stream with nothing pending is at its end: the read returns 0,
  as it does once the peer has closed. A pending \<open>Accept n\<close> is a write that takes at
  most \<open>n\<close> bytes (so \<open>Accept 0\<close> is the zero-length write); \<open>WFail\<close> is a write
  that returns \<open>-1\<close>; with nothing scripted a write takes everything it is given. Any call
  on a descriptor that is not open returns \<open>-1\<close> (\<^verbatim>\<open>EBADF\<close>).
\<close>

datatype rev = Bytes "char list" | Fail

datatype wev = Accept nat | WFail

record kernel =
  opened :: "int set"
  inq :: "int \<Rightarrow> rev list"
  wq :: "int \<Rightarrow> wev list"
  sent :: "int \<Rightarrow> char list"
  tty :: "string list"

definition sys_read :: "kernel \<Rightarrow> int \<Rightarrow> nat \<Rightarrow> int \<times> char list \<times> kernel" where
  "sys_read k fd count =
     (if fd \<notin> opened k then (-1, [], k)
      else case inq k fd of
        [] \<Rightarrow> (0, [], k)
      | Fail # es \<Rightarrow> (-1, [], k\<lparr>inq := (inq k)(fd := es)\<rparr>)
      | Bytes bs # es \<Rightarrow>
          if length bs \<le> count
          then (int (length bs), bs, k\<lparr>inq := (inq k)(fd := es)\<rparr>)
          else (int count, take count bs,
                k\<lparr>inq := (inq k)(fd := Bytes (drop count bs) # es)\<rparr>))"

definition sys_write :: "kernel \<Rightarrow> int \<Rightarrow> char list \<Rightarrow> int \<times> kernel" where
  "sys_write k fd bs =
     (if fd \<notin> opened k then (-1, k)
      else case wq k fd of
        [] \<Rightarrow> (int (length bs), k\<lparr>sent := (sent k)(fd := sent k fd @ bs)\<rparr>)
      | WFail # ws \<Rightarrow> (-1, k\<lparr>wq := (wq k)(fd := ws)\<rparr>)
      | Accept n # ws \<Rightarrow>
          (int (min n (length bs)),
           k\<lparr>wq := (wq k)(fd := ws), sent := (sent k)(fd := sent k fd @ take n bs)\<rparr>))"

definition sys_close :: "kernel \<Rightarrow> int \<Rightarrow> kernel" where
  "sys_close k fd = k\<lparr>opened := opened k - {fd}\<rparr>"

section \<open>The framing codec (socket.c)\<close>

text \<open>
  A buffer is the C array as a list of its bytes; \<open>store buf off bs\<close> is the buffer
  after the kernel has copied \<open>bs\<close> to offset \<open>off\<close>.
\<close>

definition store :: "char list \<Rightarrow> nat \<Rightarrow> char list \<Rightarrow> char list" where
  "store buf off bs = take off buf @ bs @ drop (off + length bs) buf"

text \<open>
  \<^verbatim>\<open>find_network_newline\<close>: the loop \<^verbatim>\<open>for (i = 0; i < inbuf - 1; i++)\<close>, entered at
  index \<open>i\<close>.
\<close>

function fnn_from :: "char list \<Rightarrow> int \<Rightarrow> int \<Rightarrow> int" where
  "fnn_from buf inbuf i =
     (if i < inbuf - 1
      then (if buf ! nat i = CR \<and> buf ! nat (i + 1) = LF then i + 2
            else fnn_from buf inbuf (i + 1))
      else -1)"
  by pat_completeness auto
termination
  by (relation "measure (\<lambda>(buf, inbuf, i). nat (inbuf - 1 - i))") auto

declare fnn_from.simps [simp del]

definition find_network_newline :: "char list \<Rightarrow> int \<Rightarrow> int" where
  "find_network_newline buf inbuf = fnn_from buf inbuf 0"

text \<open>
  \<^verbatim>\<open>read_from_socket\<close> returns its code together with the buffer, the new \<^verbatim>\<open>*inbuf\<close>
  and the kernel state. The one \<^verbatim>\<open>read\<close> asks for \<^verbatim>\<open>BUF_SIZE - *inbuf\<close> bytes at
  offset \<^verbatim>\<open>*inbuf\<close>.
\<close>

definition read_from_socket ::
  "kernel \<Rightarrow> int \<Rightarrow> char list \<Rightarrow> int \<Rightarrow> int \<times> char list \<times> int \<times> kernel" where
  "read_from_socket k sock_fd buf inbuf =
     (if inbuf \<ge> BUF_SIZE then (-1, buf, inbuf, k)
      else case sys_read k sock_fd (nat (BUF_SIZE - inbuf)) of
        (bytes_read, bs, k') \<Rightarrow>
          if bytes_read = -1 then (-1, buf, inbuf, k')
          else
            let buf' = store buf (nat inbuf) bs;
                inbuf' = inbuf + bytes_read
            in if bytes_read = 0 then (1, buf', inbuf', k')
               else
                 let crlf = find_network_newline buf' inbuf'
                 in if crlf \<noteq> -1 \<and> crlf < BUF_SIZE then (0, buf', inbuf', k')
                    else if inbuf' \<ge> BUF_SIZE then (-1, buf', inbuf', k')
                    else (2, buf', inbuf', k'))"

text \<open>
  \<^verbatim>\<open>get_message\<close> returns its code, the bytes copied into \<^verbatim>\<open>*dst\<close> (the first
  \<open>crlf\<close> bytes of \<^verbatim>\<open>src\<close>, terminator included; the C string ends at the
  \<^verbatim>\<open>'\0'\<close> stored behind them), the buffer after the \<^verbatim>\<open>memmove\<close> and the new
  \<^verbatim>\<open>*inbuf\<close>. The callers pass \<^verbatim>\<open>src\<close> non-null. \<^verbatim>\<open>*dst\<close> has \<^verbatim>\<open>BUF_SIZE\<close> bytes, so
  the store of the \<^verbatim>\<open>'\0'\<close> is inside it only for \<open>crlf < BUF_SIZE\<close>; every caller
  extracts only after \<^verbatim>\<open>read_from_socket\<close> returned 0, which guarantees that.
\<close>

definition memmove_front :: "char list \<Rightarrow> nat \<Rightarrow> nat \<Rightarrow> char list" where
  "memmove_front src off n = store src 0 (take n (drop off src))"

definition get_message :: "char list \<Rightarrow> int \<Rightarrow> int \<times> char list \<times> char list \<times> int" where
  "get_message src inbuf =
     (let crlf = find_network_newline src inbuf
      in if crlf = -1 then (1, [], src, inbuf)
         else (0, take (nat crlf) src,
               (if inbuf > 0 then memmove_front src (nat crlf) (nat (inbuf - crlf)) else src),
               inbuf - crlf))"

section \<open>Properties of the codec\<close>

text \<open>
  The reference notion the properties are stated with: \<open>crlf_end xs\<close> is the offset
  just past the first terminator of the byte sequence \<open>xs\<close>, if it has one.
\<close>

fun crlf_end :: "char list \<Rightarrow> nat option" where
  "crlf_end (a # b # xs) =
     (if a = CR \<and> b = LF then Some 2 else map_option Suc (crlf_end (b # xs)))"
| "crlf_end _ = None"

definition crlf_code :: "nat option \<Rightarrow> int \<Rightarrow> int" where
  "crlf_code r i = (case r of None \<Rightarrow> -1 | Some n \<Rightarrow> i + int n)"

lemma crlf_end_drop:
  assumes "Suc n < length xs"
  shows "crlf_end (drop n xs) =
           (if xs ! n = CR \<and> xs ! Suc n = LF then Some 2
            else map_option Suc (crlf_end (drop (Suc n) xs)))"
proof -
  from assms have "drop n xs = xs ! n # drop (Suc n) xs"
    by (simp add: Cons_nth_drop_Suc)
  moreover from assms have "drop (Suc n) xs = xs ! Suc n # drop (Suc (Suc n)) xs"
    by (simp add: Cons_nth_drop_Suc)
  ultimately show ?thesis by simp
qed

lemma fnn_from_eq:
  "0 \<le> i \<Longrightarrow> i \<le> inbuf \<Longrightarrow> inbuf \<le> int (length buf) \<Longrightarrow>
     fnn_from buf inbuf i = crlf_code (crlf_end (drop (nat i) (take (nat inbuf) buf))) i"
proof (induction buf inbuf i rule: fnn_from.induct)
  case (1 buf inbuf i)
  show ?case
  proof (cases "i < inbuf - 1")
    case True
    let ?xs = "take (nat inbuf) buf"
    let ?n = "nat i"
    from True "1.prems" have len: "Suc ?n < length ?xs" by simp
    from "1.prems" have suc: "nat (i + 1) = Suc ?n" by simp
    note d = crlf_end_drop [OF len]
    from True "1.prems" have lt: "?n < nat inbuf" "Suc ?n < nat inbuf" by linarith+
    have n0: "?xs ! ?n = buf ! ?n" using lt(1) by (rule nth_take)
    have n1: "?xs ! Suc ?n = buf ! Suc ?n" using lt(2) by (rule nth_take)
    show ?thesis
    proof (cases "buf ! ?n = CR \<and> buf ! Suc ?n = LF")
      case hit: True
      with True suc have "fnn_from buf inbuf i = i + 2"
        by (simp add: fnn_from.simps [of buf inbuf i])
      moreover have "crlf_end (drop ?n ?xs) = Some 2"
        by (subst d) (simp only: hit n0 n1 if_True simp_thms)
      ultimately show ?thesis by (simp add: crlf_code_def)
    next
      case miss: False
      have r: "fnn_from buf inbuf i = fnn_from buf inbuf (i + 1)"
        by (subst fnn_from.simps) (use True miss suc in auto)
      have "crlf_end (drop ?n ?xs) = map_option Suc (crlf_end (drop (Suc ?n) ?xs))"
        by (subst d) (use miss in \<open>simp only: n0 n1 if_False\<close>)
      moreover from miss suc have "\<not> (buf ! nat i = CR \<and> buf ! nat (i + 1) = LF)" by simp
      from "1.IH" [OF True this] True "1.prems" suc
      have "fnn_from buf inbuf (i + 1)
            = crlf_code (crlf_end (drop (Suc ?n) ?xs)) (i + 1)" by simp
      ultimately show ?thesis using r
        by (cases "crlf_end (drop (Suc ?n) ?xs)") (simp_all add: crlf_code_def)
    qed
  next
    case False
    with "1.prems" have "length (drop (nat i) (take (nat inbuf) buf)) \<le> 1" by simp
    then have "crlf_end (drop (nat i) (take (nat inbuf) buf)) = None"
      by (cases "drop (nat i) (take (nat inbuf) buf)" rule: crlf_end.cases) simp_all
    with False show ?thesis by (simp add: fnn_from.simps [of buf inbuf i] crlf_code_def)
  qed
qed

lemma find_network_newline_eq:
  "0 \<le> inbuf \<Longrightarrow> inbuf \<le> int (length buf) \<Longrightarrow>
     find_network_newline buf inbuf = crlf_code (crlf_end (take (nat inbuf) buf)) 0"
  using fnn_from_eq [of 0 inbuf buf] by (simp add: find_network_newline_def)

lemma crlf_end_bounds: "crlf_end xs = Some n \<Longrightarrow> 2 \<le> n \<and> n \<le> length xs"
  by (induction xs arbitrary: n rule: crlf_end.induct) (auto split: if_splits)

lemma crlf_end_append: "crlf_end xs = Some n \<Longrightarrow> crlf_end (xs @ ys) = Some n"
  by (induction xs arbitrary: n rule: crlf_end.induct) (auto split: if_splits)

lemma crlf_end_step:
  "\<not> (a = CR \<and> b = LF) \<Longrightarrow> crlf_end (a # b # xs) = map_option Suc (crlf_end (b # xs))"
  by auto

lemma crlf_end_take: "crlf_end xs = Some n \<Longrightarrow> crlf_end (take n xs) = Some n"
proof (induction xs arbitrary: n rule: crlf_end.induct)
  case (1 a b xs)
  show ?case
  proof (cases "a = CR \<and> b = LF")
    case True
    with 1 show ?thesis by auto
  next
    case False
    with "1.prems" obtain m where m: "crlf_end (b # xs) = Some m" "n = Suc m" by auto
    from crlf_end_bounds [OF m(1)] obtain m' where m': "m = Suc m'" by (cases m) auto
    from "1.IH" [OF False m(1)] have "crlf_end (b # take m' xs) = Some m" by (simp add: m')
    with False show ?thesis by (auto simp add: m m')
  qed
qed simp_all

lemma crlf_end_last: "crlf_end xs = Some n \<Longrightarrow> drop (n - 2) (take n xs) = CRLF"
proof (induction xs arbitrary: n rule: crlf_end.induct)
  case (1 a b xs)
  show ?case
  proof (cases "a = CR \<and> b = LF")
    case True
    with 1 show ?thesis by auto
  next
    case False
    with "1.prems" obtain m where m: "crlf_end (b # xs) = Some m" "n = Suc m" by auto
    from crlf_end_bounds [OF m(1)] obtain m' where m': "m = Suc (Suc m')"
      by (cases m; cases "m - 1") auto
    from "1.IH" [OF False m(1)] show ?thesis by (simp add: m m')
  qed
qed simp_all

lemma crlf_end_first: "crlf_end xs = Some n \<Longrightarrow> crlf_end (take (n - 1) xs) = None"
proof (induction xs arbitrary: n rule: crlf_end.induct)
  case (1 a b xs)
  show ?case
  proof (cases "a = CR \<and> b = LF")
    case True
    with 1 show ?thesis by auto
  next
    case False
    with "1.prems" obtain m where m: "crlf_end (b # xs) = Some m" "n = Suc m" by auto
    from crlf_end_bounds [OF m(1)] obtain m' where m': "m = Suc (Suc m')"
      by (cases m; cases "m - 1") auto
    from "1.IH" [OF False m(1)] have "crlf_end (b # take m' xs) = None" by (simp add: m')
    with False show ?thesis by (simp add: m m')
  qed
qed simp_all

lemma crlf_end_plain: "a \<noteq> CR \<Longrightarrow> crlf_end (replicate n a) = None"
proof (induction n)
  case (Suc n)
  then show ?case by (cases n) auto
qed simp

lemma crlf_end_plain_cr: "a \<noteq> CR \<Longrightarrow> crlf_end (replicate n a @ [CR]) = None"
proof (induction n)
  case (Suc n)
  then show ?case by (cases n) auto
qed simp

lemma crlf_end_plain_crlf: "a \<noteq> CR \<Longrightarrow> crlf_end (replicate n a @ CRLF) = Some (n + 2)"
proof (induction n)
  case (Suc n)
  then show ?case by (cases n) auto
qed simp

lemma crlf_end_None_take: "crlf_end xs = None \<Longrightarrow> crlf_end (take n xs) = None"
proof (cases "crlf_end (take n xs)")
  case (Some m)
  from crlf_end_append [OF this, of "drop n xs"] show "crlf_end xs = None \<Longrightarrow> ?thesis" by simp
qed simp

lemma BUF_SIZE_val: "BUF_SIZE = 131"
  by (simp add: BUF_SIZE_def MAX_PROTO_MSG_def MAX_USER_MSG_def)

lemma store_length: "off + length bs \<le> length buf \<Longrightarrow> length (store buf off bs) = length buf"
  by (simp add: store_def)

lemma store_take: "off \<le> length buf \<Longrightarrow> take (off + length bs) (store buf off bs) = take off buf @ bs"
  by (simp add: store_def)

lemma store_take_le: "n \<le> off \<Longrightarrow> off \<le> length buf \<Longrightarrow> take n (store buf off bs) = take n buf"
  by (simp add: store_def min_def)

lemma sys_read_cases:
  assumes "sys_read k fd count = (n, bs, k')"
  shows "(n = -1 \<and> bs = []) \<or> (n = int (length bs) \<and> length bs \<le> count)"
  using assms
  by (auto simp: sys_read_def split: if_splits list.splits rev.splits)

lemma sys_read_opened: "sys_read k fd count = (n, bs, k') \<Longrightarrow> opened k' = opened k"
  by (auto simp: sys_read_def split: if_splits list.splits rev.splits)

text \<open>What one read does to the buffer, whatever the kernel delivers.\<close>

lemma read_from_socket_buffer:
  assumes r: "read_from_socket k fd buf inbuf = (r, buf', inbuf', k')"
    and b: "0 \<le> inbuf" "inbuf \<le> BUF_SIZE" "length buf = nat BUF_SIZE"
  shows "inbuf \<le> inbuf' \<and> inbuf' \<le> BUF_SIZE \<and> length buf' = length buf
         \<and> take (nat inbuf) buf' = take (nat inbuf) buf"
proof (cases "inbuf \<ge> BUF_SIZE")
  case True
  with r have "buf' = buf" "inbuf' = inbuf" by (simp_all add: read_from_socket_def)
  with b show ?thesis by simp
next
  case False
  obtain n bs k1 where sr: "sys_read k fd (nat (BUF_SIZE - inbuf)) = (n, bs, k1)"
    by (cases "sys_read k fd (nat (BUF_SIZE - inbuf))") auto
  show ?thesis
  proof (cases "n = -1")
    case True
    with r False sr have "buf' = buf" "inbuf' = inbuf" by (simp_all add: read_from_socket_def)
    with b show ?thesis by simp
  next
    case n: False
    with sys_read_cases [OF sr] have len: "n = int (length bs)" "length bs \<le> nat (BUF_SIZE - inbuf)"
      by auto
    from r False sr n have eq: "buf' = store buf (nat inbuf) bs" "inbuf' = inbuf + n"
      by (auto simp: read_from_socket_def Let_def split: if_splits)
    from len b False have fit: "nat inbuf + length bs \<le> length buf" by simp
    from eq len have "inbuf \<le> inbuf'" by simp
    moreover from eq len b False have "inbuf' \<le> BUF_SIZE" by simp
    moreover from eq fit have "length buf' = length buf" by (simp add: store_length)
    moreover from eq fit have "take (nat inbuf) buf' = take (nat inbuf) buf"
      by (simp add: store_take_le)
    ultimately show ?thesis by simp
  qed
qed

text \<open>The code a read returns, read off the valid bytes it leaves.\<close>

lemma read_from_socket_code:
  assumes r: "read_from_socket k fd buf inbuf = (r, buf', inbuf', k')"
    and b: "0 \<le> inbuf" "inbuf \<le> BUF_SIZE" "length buf = nat BUF_SIZE"
  shows "r = 0 \<Longrightarrow> inbuf < inbuf' \<and> (\<exists>n. crlf_end (take (nat inbuf') buf') = Some n \<and> int n < BUF_SIZE)"
    and "r = 2 \<Longrightarrow> inbuf < inbuf' \<and> inbuf' < BUF_SIZE \<and> crlf_end (take (nat inbuf') buf') = None"
    and "r = 1 \<Longrightarrow> inbuf' = inbuf"
    and "r = -1 \<or> r = 0 \<or> r = 1 \<or> r = 2"
    and "inbuf' = BUF_SIZE \<Longrightarrow> crlf_end (take (nat inbuf') buf') = None \<Longrightarrow> r = -1"
proof -
  note bb = read_from_socket_buffer [OF r b]
  from bb b have v: "0 \<le> inbuf'" "inbuf' \<le> int (length buf')" by auto
  note f = find_network_newline_eq [OF v]
  obtain n bs k1 where sr: "sys_read k fd (nat (BUF_SIZE - inbuf)) = (n, bs, k1)"
    by (cases "sys_read k fd (nat (BUF_SIZE - inbuf))") auto
  note sc = sys_read_cases [OF sr]
  have eq: "inbuf < BUF_SIZE \<Longrightarrow> n \<noteq> -1 \<Longrightarrow> buf' = store buf (nat inbuf) bs \<and> inbuf' = inbuf + n"
    using r sr by (auto simp: read_from_socket_def Let_def split: if_splits)
  show "r = -1 \<or> r = 0 \<or> r = 1 \<or> r = 2"
    using r sr by (auto simp: read_from_socket_def Let_def split: if_splits)
  show "r = 1 \<Longrightarrow> inbuf' = inbuf"
    using r sr by (auto simp: read_from_socket_def Let_def split: if_splits)
  show "r = 0 \<Longrightarrow> inbuf < inbuf' \<and> (\<exists>n. crlf_end (take (nat inbuf') buf') = Some n \<and> int n < BUF_SIZE)"
  proof -
    assume r0: "r = 0"
    with r sr have c: "inbuf < BUF_SIZE" "n \<noteq> -1" "n \<noteq> 0"
      by (auto simp: read_from_socket_def Let_def split: if_splits)
    with eq sc have lt: "inbuf < inbuf'" by auto
    from r sr r0 c eq
    have "find_network_newline buf' inbuf' \<noteq> -1 \<and> find_network_newline buf' inbuf' < BUF_SIZE"
      by (auto simp: read_from_socket_def Let_def split: if_splits)
    with f have "\<exists>n. crlf_end (take (nat inbuf') buf') = Some n \<and> int n < BUF_SIZE"
      by (cases "crlf_end (take (nat inbuf') buf')") (auto simp: crlf_code_def)
    with lt show ?thesis by simp
  qed
  show "r = 2 \<Longrightarrow> inbuf < inbuf' \<and> inbuf' < BUF_SIZE \<and> crlf_end (take (nat inbuf') buf') = None"
  proof -
    assume r2: "r = 2"
    with r sr have c: "inbuf < BUF_SIZE" "n \<noteq> -1" "n \<noteq> 0"
      by (auto simp: read_from_socket_def Let_def split: if_splits)
    with eq sc have lt: "inbuf < inbuf'" by auto
    from r sr r2 c eq
    have d: "\<not> (find_network_newline buf' inbuf' \<noteq> -1 \<and> find_network_newline buf' inbuf' < BUF_SIZE)"
      "inbuf' < BUF_SIZE"
      by (auto simp: read_from_socket_def Let_def split: if_splits)
    have "crlf_end (take (nat inbuf') buf') = None"
    proof (cases "crlf_end (take (nat inbuf') buf')")
      case (Some m)
      from crlf_end_bounds [OF Some] have "m \<le> nat inbuf'" by simp
      with v have "int m \<le> inbuf'" by linarith
      with d f Some show ?thesis by (simp add: crlf_code_def)
    qed simp
    with lt d show ?thesis by simp
  qed
  show "inbuf' = BUF_SIZE \<Longrightarrow> crlf_end (take (nat inbuf') buf') = None \<Longrightarrow> r = -1"
  proof -
    assume full: "inbuf' = BUF_SIZE" and no: "crlf_end (take (nat inbuf') buf') = None"
    from no f have nf: "find_network_newline buf' inbuf' = -1" by (simp add: crlf_code_def)
    show "r = -1"
    proof (cases "inbuf \<ge> BUF_SIZE")
      case True
      with r show ?thesis by (simp add: read_from_socket_def)
    next
      case False
      show ?thesis
      proof (cases "n = -1")
        case True
        with r sr False show ?thesis by (simp add: read_from_socket_def)
      next
        case n: False
        with eq False have e: "buf' = store buf (nat inbuf) bs" "inbuf' = inbuf + n" by auto
        from e full False have "n \<noteq> 0" by auto
        with r sr False n nf full e show ?thesis
          by (simp add: read_from_socket_def Let_def)
      qed
    qed
  qed
qed

fun repeated_reads ::
  "nat \<Rightarrow> kernel \<Rightarrow> int \<Rightarrow> char list \<Rightarrow> int \<Rightarrow> int list \<times> char list \<times> int \<times> kernel" where
  "repeated_reads 0 k fd buf inbuf = ([], buf, inbuf, k)"
| "repeated_reads (Suc n) k fd buf inbuf =
     (case read_from_socket k fd buf inbuf of
        (r, buf', inbuf', k') \<Rightarrow>
          (case repeated_reads n k' fd buf' inbuf' of
             (rs, b, i, kk) \<Rightarrow> (r # rs, b, i, kk)))"

definition read_code :: "char list \<Rightarrow> int" where
  "read_code valid =
     (case crlf_end valid of
        Some n \<Rightarrow> if int n < BUF_SIZE then 0 else -1
      | None \<Rightarrow> if int (length valid) \<ge> BUF_SIZE then -1 else 2)"

lemma read_from_socket_data:
  assumes o: "fd \<in> opened k" and q: "inq k fd = Bytes bs # es" and ne: "bs \<noteq> []"
    and b: "0 \<le> inbuf" "inbuf < BUF_SIZE" "length buf = nat BUF_SIZE"
  defines "count \<equiv> nat (BUF_SIZE - inbuf)"
  shows "read_from_socket k fd buf inbuf =
           (read_code (take (nat inbuf) buf @ take count bs),
            store buf (nat inbuf) (take count bs),
            inbuf + int (length (take count bs)),
            k\<lparr>inq := (inq k)(fd := (if length bs \<le> count then es
                                       else Bytes (drop count bs) # es))\<rparr>)"
proof -
  define d where "d = take count bs"
  define k1 where "k1 = k\<lparr>inq := (inq k)(fd := (if length bs \<le> count then es
                                       else Bytes (drop count bs) # es))\<rparr>"
  from b have cpos: "0 < count" by (simp add: count_def)
  have sr: "sys_read k fd (nat (BUF_SIZE - inbuf)) = (int (length d), d, k1)"
    using o q by (simp add: sys_read_def min_def d_def k1_def count_def)
  from ne cpos have dne: "int (length d) \<noteq> 0" "int (length d) \<noteq> -1" by (simp_all add: d_def)
  define buf1 where "buf1 = store buf (nat inbuf) d"
  define in1 where "in1 = inbuf + int (length d)"
  from b have fit: "nat inbuf + length d \<le> length buf" by (simp add: count_def d_def)
  have v: "0 \<le> in1" "in1 \<le> int (length buf1)"
    using b fit by (simp_all add: store_length in1_def buf1_def)
  from b have "nat in1 = nat inbuf + length d" by (simp add: in1_def)
  then have valid: "take (nat in1) buf1 = take (nat inbuf) buf @ d"
    using store_take [of "nat inbuf" buf d] fit by (simp add: buf1_def)
  have lenv: "int (length (take (nat inbuf) buf @ d)) = in1"
    using b fit by (simp add: in1_def)
  have f: "find_network_newline buf1 in1 = crlf_code (crlf_end (take (nat inbuf) buf @ d)) 0"
    using find_network_newline_eq [OF v] valid by simp
  have inle: "in1 \<le> BUF_SIZE" using b fit by (simp add: in1_def)
  have code: "(if find_network_newline buf1 in1 \<noteq> -1 \<and> find_network_newline buf1 in1 < BUF_SIZE
               then 0 else if in1 \<ge> BUF_SIZE then -1 else 2)
              = read_code (take (nat inbuf) buf @ d)"
  proof (cases "crlf_end (take (nat inbuf) buf @ d)")
    case None
    with f lenv show ?thesis by (simp add: read_code_def crlf_code_def)
  next
    case (Some m)
    from crlf_end_bounds [OF Some] lenv have "int m \<le> in1" by linarith
    with Some f inle show ?thesis by (auto simp add: read_code_def crlf_code_def)
  qed
  from b have nb: "\<not> inbuf \<ge> BUF_SIZE" by simp
  have "read_from_socket k fd buf inbuf = (read_code (take (nat inbuf) buf @ d), buf1, in1, k1)"
    unfolding read_from_socket_def
    using nb sr dne
    by (simp add: Let_def buf1_def [symmetric] in1_def [symmetric] code [symmetric])
  then show ?thesis by (simp add: buf1_def in1_def d_def k1_def)
qed

lemma crlf_end_proper_prefix:
  assumes "crlf_end full = Some (length full)" and "m < length full"
  shows "crlf_end (take m full) = None"
proof -
  from crlf_end_first [OF assms(1)] have "crlf_end (take (length full - 1) full) = None" .
  moreover from assms(2) have "min m (length full - 1) = m" by simp
  ultimately show ?thesis using crlf_end_None_take [of "take (length full - 1) full" m] by simp
qed

lemma split_frame_reads:
  assumes full: "crlf_end full = Some (length full)" "int (length full) < BUF_SIZE"
  shows "pre @ concat chunks = full \<Longrightarrow> [] \<notin> set chunks \<Longrightarrow> chunks \<noteq> [] \<Longrightarrow>
     take (length pre) buf = pre \<Longrightarrow> length buf = nat BUF_SIZE \<Longrightarrow>
     fd \<in> opened k \<Longrightarrow> inq k fd = map Bytes chunks @ es \<Longrightarrow>
     \<exists>buf' k'. repeated_reads (length chunks) k fd buf (int (length pre))
                 = (replicate (length chunks - 1) 2 @ [0], buf', int (length full), k')
               \<and> take (length full) buf' = full \<and> length buf' = length buf
               \<and> inq k' fd = es \<and> opened k' = opened k"
proof (induction chunks arbitrary: pre buf k)
  case Nil
  then show ?case by simp
next
  case (Cons c cs)
  from Cons.prems have c: "c \<noteq> []" and cs: "[] \<notin> set cs" by auto
  from Cons.prems have sum: "length pre + length c + length (concat cs) = length full"
    by (metis append.assoc concat.simps(2) length_append)
  with full have lt: "int (length pre) < BUF_SIZE" by simp
  define count where "count = nat (BUF_SIZE - int (length pre))"
  from sum full have fits: "length c \<le> count" by (simp add: count_def)
  then have tk: "take count c = c" by simp
  have plen: "length pre \<le> length buf"
    using Cons.prems(4) by (metis length_take min.cobounded1)
  have np: "nat (int (length pre)) = length pre" by simp
  from Cons.prems have q: "inq k fd = Bytes c # (map Bytes cs @ es)" by simp
  define k1 where "k1 = k\<lparr>inq := (inq k)(fd := map Bytes cs @ es)\<rparr>"
  define buf1 where "buf1 = store buf (length pre) c"
  have rd: "read_from_socket k fd buf (int (length pre))
        = (read_code (pre @ c), buf1, int (length pre) + int (length c), k1)"
    using read_from_socket_data [OF Cons.prems(6) q c _ lt Cons.prems(5)] fits tk Cons.prems(4)
    by (simp add: count_def k1_def buf1_def)
  have v1: "take (length (pre @ c)) buf1 = pre @ c"
    using store_take [OF plen, of c] Cons.prems(4) by (simp add: buf1_def)
  have l1: "length buf1 = nat BUF_SIZE"
    using sum full Cons.prems(5) by (simp add: buf1_def store_length)
  show ?case
  proof (cases "cs = []")
    case True
    with Cons.prems have pc: "pre @ c = full" by simp
    with full have "read_code (pre @ c) = 0" by (simp add: read_code_def)
    with rd True have "repeated_reads (length (c # cs)) k fd buf (int (length pre))
        = (replicate (length (c # cs) - 1) 2 @ [0], buf1, int (length (pre @ c)), k1)"
      by simp
    moreover have "inq k1 fd = es" "opened k1 = opened k" using True by (simp_all add: k1_def)
    ultimately show ?thesis using v1 l1 Cons.prems(5) unfolding pc
      by (intro exI [of _ buf1] exI [of _ k1]) simp
  next
    case False
    with cs have "0 < length (concat cs)" by (cases cs) auto
    with sum have m: "length (pre @ c) < length full" by (simp only: length_append)
    from Cons.prems have "pre @ c = take (length (pre @ c)) full"
      by (metis append.assoc append_eq_conv_conj concat.simps(2))
    with crlf_end_proper_prefix [OF full(1) m] have "crlf_end (pre @ c) = None" by simp
    with m full have code: "read_code (pre @ c) = 2" by (simp add: read_code_def)
    from Cons.prems have p1: "(pre @ c) @ concat cs = full" by simp
    have "fd \<in> opened k1" "inq k1 fd = map Bytes cs @ es" "opened k1 = opened k"
      using Cons.prems by (simp_all add: k1_def)
    from Cons.IH [OF p1 cs False v1 l1 this(1,2)] this(3)
    obtain buf' k' where
      r: "repeated_reads (length cs) k1 fd buf1 (int (length (pre @ c)))
            = (replicate (length cs - 1) 2 @ [0], buf', int (length full), k')"
      and o: "take (length full) buf' = full" "length buf' = length buf1"
        "inq k' fd = es" "opened k' = opened k"
      by auto
    from False have rep: "replicate (length cs) (2::int) = 2 # replicate (length cs - 1) 2"
      by (cases cs) simp_all
    from rd code r have "repeated_reads (length (c # cs)) k fd buf (int (length pre))
        = (replicate (length (c # cs) - 1) 2 @ [0], buf', int (length full), k')"
      by (simp add: rep)
    with o l1 Cons.prems(5) show ?thesis by auto
  qed
qed

lemma memmove_front_length: "off + n \<le> length src \<Longrightarrow> length (memmove_front src off n) = length src"
  by (simp add: memmove_front_def store_def)

lemma memmove_front_take:
  "off + n \<le> length src \<Longrightarrow> take n (memmove_front src off n) = take n (drop off src)"
  by (simp add: memmove_front_def store_def)

lemma get_message_none:
  assumes "0 \<le> inbuf" "inbuf \<le> int (length src)" "crlf_end (take (nat inbuf) src) = None"
  shows "get_message src inbuf = (1, [], src, inbuf)"
  using find_network_newline_eq [OF assms(1,2)] assms(3)
  by (simp add: get_message_def crlf_code_def)

lemma get_message_frame:
  assumes "0 \<le> inbuf" "inbuf \<le> int (length src)" "crlf_end (take (nat inbuf) src) = Some n"
  shows "get_message src inbuf
           = (0, take n src, memmove_front src n (nat inbuf - n), inbuf - int n)"
proof -
  from crlf_end_bounds [OF assms(3)] have n: "2 \<le> n" "n \<le> nat inbuf" by simp_all
  then have pos: "inbuf > 0" by linarith
  from n assms have "nat (inbuf - int n) = nat inbuf - n" by linarith
  with find_network_newline_eq [OF assms(1,2)] assms(3) pos show ?thesis
    by (simp add: get_message_def crlf_code_def Let_def)
qed

lemma get_message_ok:
  assumes b: "0 \<le> inbuf" "inbuf \<le> int (length src)"
    and g: "get_message src inbuf = (0, dst, src', inbuf')"
  shows "crlf_end (take (nat inbuf) src) = Some (length dst) \<and> dst = take (length dst) src
         \<and> inbuf' = inbuf - int (length dst) \<and> 0 \<le> inbuf' \<and> length src' = length src
         \<and> take (nat inbuf') src' = drop (length dst) (take (nat inbuf) src)"
proof (cases "crlf_end (take (nat inbuf) src)")
  case None
  from get_message_none [OF b None] g show ?thesis by simp
next
  case (Some n)
  from crlf_end_bounds [OF Some] have n: "2 \<le> n" "n \<le> nat inbuf" by simp_all
  with b have nl: "n \<le> length src" by linarith
  from get_message_frame [OF b Some] g
  have e: "dst = take n src" "src' = memmove_front src n (nat inbuf - n)" "inbuf' = inbuf - int n"
    by simp_all
  from e nl have ld: "length dst = n" by simp
  from n b have ni: "nat inbuf' = nat inbuf - n" unfolding e by linarith
  from n b have fit: "n + (nat inbuf - n) \<le> length src" by linarith
  have "take (nat inbuf') src' = take (nat inbuf - n) (drop n src)"
    unfolding ni e(2) using fit by (rule memmove_front_take)
  also have "\<dots> = drop n (take (nat inbuf) src)"
    using n by (simp add: drop_take)
  finally have t: "take (nat inbuf') src' = drop n (take (nat inbuf) src)" .
  from e fit have "length src' = length src" by (simp add: memmove_front_length)
  with Some e ld t n b show ?thesis by auto
qed

lemma crlf_end_None_prefix:
  assumes "crlf_end (take N ys) = None" and "m \<le> N"
  shows "crlf_end (take m ys) = None"
proof -
  from assms(2) have "take m (take N ys) = take m ys" by (simp add: min_absorb1)
  with crlf_end_None_take [OF assms(1), of m] show ?thesis by simp
qed

lemma overflow_reads:
  "take (length pre) buf = pre \<Longrightarrow> int (length pre) < BUF_SIZE \<Longrightarrow>
   length buf = nat BUF_SIZE \<Longrightarrow> [] \<notin> set chunks \<Longrightarrow>
   crlf_end (take (nat BUF_SIZE) (pre @ concat chunks)) = None \<Longrightarrow>
   nat BUF_SIZE \<le> length (pre @ concat chunks) \<Longrightarrow>
   fd \<in> opened k \<Longrightarrow> inq k fd = map Bytes chunks @ es \<Longrightarrow>
   \<exists>n buf' k'. repeated_reads (Suc n) k fd buf (int (length pre))
                  = (replicate n 2 @ [-1], buf', BUF_SIZE, k')
                \<and> take (nat BUF_SIZE) buf' = take (nat BUF_SIZE) (pre @ concat chunks)"
proof (induction chunks arbitrary: pre buf k)
  case Nil
  then show ?case by simp
next
  case (Cons c cs)
  from Cons.prems have c: "c \<noteq> []" and cs: "[] \<notin> set cs" by auto
  define count where "count = nat (BUF_SIZE - int (length pre))"
  define d where "d = take count c"
  define all where "all = pre @ concat (c # cs)"
  have plen: "length pre \<le> length buf"
    using Cons.prems(1) by (metis length_take min.cobounded1)
  from Cons.prems have q: "inq k fd = Bytes c # (map Bytes cs @ es)" by simp
  define k1 where "k1 = k\<lparr>inq := (inq k)(fd := (if length c \<le> count then map Bytes cs @ es
                                       else Bytes (drop count c) # map Bytes cs @ es))\<rparr>"
  define buf1 where "buf1 = store buf (length pre) d"
  have rd: "read_from_socket k fd buf (int (length pre))
        = (read_code (pre @ d), buf1, int (length (pre @ d)), k1)"
    using read_from_socket_data [OF Cons.prems(7) q c _ Cons.prems(2,3)] Cons.prems(1)
    by (simp add: count_def k1_def buf1_def d_def)
  define m where "m = length (pre @ d)"
  have rd: "read_from_socket k fd buf (int (length pre)) = (read_code (pre @ d), buf1, int m, k1)"
    using rd by (simp add: m_def)
  have dlen: "m \<le> nat BUF_SIZE"
    using Cons.prems(2) by (simp add: d_def count_def m_def)
  have v1: "take m buf1 = pre @ d"
    using store_take [OF plen, of d] Cons.prems(1) by (simp add: buf1_def m_def)
  have l1: "length buf1 = nat BUF_SIZE"
    using dlen Cons.prems(3) by (simp add: buf1_def store_length m_def)
  have "take (length d) c = d" "length d \<le> length c" by (simp_all add: d_def min_def)
  then have pfx: "pre @ d = take m all"
    by (simp add: all_def m_def)
  from Cons.prems(5) have none: "crlf_end (take (nat BUF_SIZE) all) = None" by (simp add: all_def)
  have nocrlf: "crlf_end (pre @ d) = None"
    by (subst pfx) (rule crlf_end_None_prefix [OF none dlen])
  have lenpd: "length (pre @ d) = m" by (simp add: m_def)
  show ?case
  proof (cases "m = nat BUF_SIZE")
    case True
    with nocrlf lenpd have "read_code (pre @ d) = -1" by (simp add: read_code_def)
    with rd True have "repeated_reads (Suc 0) k fd buf (int (length pre))
        = (replicate 0 2 @ [-1], buf1, BUF_SIZE, k1)"
      using BUF_SIZE_val by simp
    moreover from v1 pfx have "take m buf1 = take m all" by simp
    with True have "take (nat BUF_SIZE) buf1 = take (nat BUF_SIZE) all" by simp
    ultimately show ?thesis unfolding all_def by blast
  next
    case False
    with dlen have short: "m < nat BUF_SIZE" by simp
    with nocrlf lenpd have code: "read_code (pre @ d) = 2" by (simp add: read_code_def)
    from short Cons.prems(2) have whole: "length c \<le> count" "d = c"
      by (auto simp: d_def count_def min_def m_def split: if_splits)
    then have k1: "fd \<in> opened k1" "inq k1 fd = map Bytes cs @ es"
      using Cons.prems(7) by (simp_all add: k1_def)
    from whole have alleq: "(pre @ d) @ concat cs = all" by (simp add: all_def)
    from short have s': "int (length (pre @ d)) < BUF_SIZE" unfolding lenpd by linarith
    from v1 have v1': "take (length (pre @ d)) buf1 = pre @ d" unfolding lenpd .
    from Cons.prems(5,6) have p56: "crlf_end (take (nat BUF_SIZE) ((pre @ d) @ concat cs)) = None"
      "nat BUF_SIZE \<le> length ((pre @ d) @ concat cs)"
      unfolding alleq by (simp_all add: all_def)
    from Cons.IH [OF v1' s' l1 cs p56 k1]
    obtain n buf' k' where
      r: "repeated_reads (Suc n) k1 fd buf1 (int (length (pre @ d)))
            = (replicate n 2 @ [-1], buf', BUF_SIZE, k')"
      and t: "take (nat BUF_SIZE) buf' = take (nat BUF_SIZE) ((pre @ d) @ concat cs)"
      by blast
    from rd code r have "repeated_reads (Suc (Suc n)) k fd buf (int (length pre))
        = (replicate (Suc n) 2 @ [-1], buf', BUF_SIZE, k')"
      unfolding lenpd by simp
    with t show ?thesis unfolding alleq all_def by blast
  qed
qed

lemma repeated_reads_bound:
  "0 \<le> inbuf \<Longrightarrow> inbuf \<le> BUF_SIZE \<Longrightarrow> length buf = nat BUF_SIZE \<Longrightarrow>
   repeated_reads n k fd buf inbuf = (rs, b, i, kk) \<Longrightarrow>
   0 \<le> i \<and> i \<le> BUF_SIZE \<and> length b = nat BUF_SIZE"
proof (induction n arbitrary: k buf inbuf rs)
  case 0
  then show ?case by simp
next
  case (Suc n)
  obtain r buf' inbuf' k' where rd: "read_from_socket k fd buf inbuf = (r, buf', inbuf', k')"
    by (cases "read_from_socket k fd buf inbuf") auto
  from read_from_socket_buffer [OF rd Suc.prems(1-3)] Suc.prems
  have b: "0 \<le> inbuf'" "inbuf' \<le> BUF_SIZE" "length buf' = nat BUF_SIZE" by simp_all
  from Suc.prems(4) rd obtain rs' where "repeated_reads n k' fd buf' inbuf' = (rs', b, i, kk)"
    by (auto split: prod.splits)
  from Suc.IH [OF b this] show ?case .
qed

subsection \<open>Reaching the buffer's capacity\<close>

text \<open>
  \<^bold>\<open>C6.\<close> A read that leaves the buffer full (\<open>BUF_SIZE = 131\<close> valid bytes)
  with no terminator among them returns \<open>-1\<close> and has overwritten none of the
  bytes that were valid before: nothing is cut off to make room. Hence any stream
  that delivers at least 131 bytes with no terminator in the first 131 makes the
  repeated reads return \<open>2, \<dots>, 2, -1\<close>, the buffer then holding exactly the first
  131 bytes of the stream. Across any number of reads the count of valid bytes stays
  between 0 and \<open>BUF_SIZE\<close>.
\<close>

theorem codec_capacity:
  "BUF_SIZE = 131
   \<and> (\<forall>n k fd buf inbuf rs b i kk.
        0 \<le> inbuf \<and> inbuf \<le> BUF_SIZE \<and> length buf = nat BUF_SIZE
        \<and> repeated_reads n k fd buf inbuf = (rs, b, i, kk)
        \<longrightarrow> 0 \<le> i \<and> i \<le> BUF_SIZE)
   \<and> (\<forall>k fd buf inbuf r buf' inbuf' k'.
        0 \<le> inbuf \<and> inbuf \<le> BUF_SIZE \<and> length buf = nat BUF_SIZE
        \<and> read_from_socket k fd buf inbuf = (r, buf', inbuf', k')
        \<and> inbuf' = BUF_SIZE \<and> crlf_end (take (nat inbuf') buf') = None
        \<longrightarrow> r = -1 \<and> take (nat inbuf) buf' = take (nat inbuf) buf)
   \<and> (\<forall>chunks k fd buf es.
        [] \<notin> set chunks \<and> nat BUF_SIZE \<le> length (concat chunks)
        \<and> crlf_end (take (nat BUF_SIZE) (concat chunks)) = None
        \<and> length buf = nat BUF_SIZE \<and> fd \<in> opened k \<and> inq k fd = map Bytes chunks @ es
        \<longrightarrow> (\<exists>n buf' k'.
               repeated_reads (Suc n) k fd buf 0 = (replicate n 2 @ [-1], buf', BUF_SIZE, k')
               \<and> take (nat BUF_SIZE) buf' = take (nat BUF_SIZE) (concat chunks)))"
proof (intro conjI allI impI)
  show "BUF_SIZE = 131" by (rule BUF_SIZE_val)
next
  fix n k fd buf inbuf rs b i kk
  assume "0 \<le> inbuf \<and> inbuf \<le> BUF_SIZE \<and> length buf = nat BUF_SIZE
        \<and> repeated_reads n k fd buf inbuf = (rs, b, i, kk)"
  then have "0 \<le> i \<and> i \<le> BUF_SIZE \<and> length b = nat BUF_SIZE"
    using repeated_reads_bound [of inbuf buf n k fd rs b i kk] by blast
  then show "0 \<le> i" "i \<le> BUF_SIZE" by simp_all
next
  fix k fd buf inbuf r buf' inbuf' k'
  assume a: "0 \<le> inbuf \<and> inbuf \<le> BUF_SIZE \<and> length buf = nat BUF_SIZE
        \<and> read_from_socket k fd buf inbuf = (r, buf', inbuf', k')
        \<and> inbuf' = BUF_SIZE \<and> crlf_end (take (nat inbuf') buf') = None"
  then have rd: "read_from_socket k fd buf inbuf = (r, buf', inbuf', k')"
    and b: "0 \<le> inbuf" "inbuf \<le> BUF_SIZE" "length buf = nat BUF_SIZE" by blast+
  from a have "inbuf' = BUF_SIZE" "crlf_end (take (nat inbuf') buf') = None" by blast+
  then show "r = -1" by (rule read_from_socket_code(5) [OF rd b])
  from read_from_socket_buffer [OF rd b] show "take (nat inbuf) buf' = take (nat inbuf) buf"
    by simp
next
  fix chunks and k :: kernel and fd and buf :: "char list" and es
  assume a: "[] \<notin> set chunks \<and> nat BUF_SIZE \<le> length (concat chunks)
        \<and> crlf_end (take (nat BUF_SIZE) (concat chunks)) = None
        \<and> length buf = nat BUF_SIZE \<and> fd \<in> opened k \<and> inq k fd = map Bytes chunks @ es"
  have "take (length ([]::char list)) buf = []" "int (length ([]::char list)) < BUF_SIZE"
    by (simp_all add: BUF_SIZE_val)
  from overflow_reads [OF this, of chunks fd k es] a
  show "\<exists>n buf' k'.
          repeated_reads (Suc n) k fd buf 0 = (replicate n 2 @ [-1], buf', BUF_SIZE, k')
          \<and> take (nat BUF_SIZE) buf' = take (nat BUF_SIZE) (concat chunks)"
    by simp
qed

text \<open>131 bytes \<open>A\<close>, delivered as 100 and then 31, fail at the second read.\<close>

theorem codec_capacity_witness:
  "\<exists>n buf' k'.
     repeated_reads (Suc n)
       \<lparr>opened = {4}, inq = (\<lambda>fd. [Bytes (replicate 100 CHR ''A''), Bytes (replicate 31 CHR ''A'')]),
        wq = (\<lambda>fd. []), sent = (\<lambda>fd. []), tty = []\<rparr> 4 (replicate 131 NUL) 0
       = (replicate n 2 @ [-1], buf', 131, k')"
proof -
  let ?chunks = "[replicate 100 CHR ''A'', replicate 31 CHR ''A'']"
  let ?k = "\<lparr>opened = {4::int}, inq = (\<lambda>fd::int. map Bytes ?chunks),
        wq = (\<lambda>fd. []), sent = (\<lambda>fd. []), tty = []\<rparr>"
  have "concat ?chunks = replicate 131 CHR ''A''"
    by (simp add: replicate_add [symmetric])
  then have h: "[] \<notin> set ?chunks \<and> nat BUF_SIZE \<le> length (concat ?chunks)
        \<and> crlf_end (take (nat BUF_SIZE) (concat ?chunks)) = None
        \<and> length (replicate 131 NUL) = nat BUF_SIZE \<and> 4 \<in> opened ?k
        \<and> inq ?k 4 = map Bytes ?chunks @ []"
    by (simp add: BUF_SIZE_val crlf_end_plain)
  from codec_capacity [THEN conjunct2, THEN conjunct2, THEN conjunct2, rule_format, OF h]
  obtain n buf' k' where
    "repeated_reads (Suc n) ?k 4 (replicate 131 NUL) 0 = (replicate n 2 @ [-1], buf', BUF_SIZE, k')"
    by blast
  then show ?thesis unfolding BUF_SIZE_val by (simp del: repeated_reads.simps) blast
qed

subsection \<open>A frame delivered in pieces, and the bytes behind a frame\<close>

lemma crlf_end_payload:
  "CR \<notin> set p \<Longrightarrow> crlf_end (p @ CRLF @ r) = Some (length p + 2)"
proof (induction p)
  case Nil
  show ?case by simp
next
  case (Cons a p)
  then have a: "a \<noteq> CR" and ih: "crlf_end (p @ CRLF @ r) = Some (length p + 2)" by auto
  obtain b xs where e: "p @ CRLF @ r = b # xs" by (cases p) simp_all
  from a have "crlf_end (a # b # xs) = map_option Suc (crlf_end (b # xs))"
    by (rule_tac crlf_end_step) simp
  with e ih show ?case by simp
qed

lemma get_message_shift:
  assumes "0 \<le> inbuf" "inbuf \<le> int (length src)" "crlf_end (take (nat inbuf) src) = Some n"
  shows "\<exists>src'. get_message src inbuf = (0, take n src, src', inbuf - int n)
           \<and> length src' = length src
           \<and> take (nat inbuf - n) src' = drop n (take (nat inbuf) src)"
proof -
  let ?src' = "memmove_front src n (nat inbuf - n)"
  note g = get_message_frame [OF assms]
  from crlf_end_bounds [OF assms(3)] assms(1,2) have n: "n \<le> nat inbuf" "n \<le> length src"
    by simp_all linarith
  then have l: "length (take n src) = n" by simp
  from n assms(1) have m: "nat (inbuf - int n) = nat inbuf - n" by linarith
  from get_message_ok [OF assms(1,2) g]
  have "length ?src' = length src"
    and "take (nat (inbuf - int n)) ?src' = drop n (take (nat inbuf) src)"
    unfolding l by blast+
  with g show ?thesis unfolding m by blast
qed

text \<open>
  \<^bold>\<open>C5.\<close> However the 128 bytes of 126 times \<open>A\<close> followed by CRLF are cut into
  non-empty chunks, one read per chunk returns \<open>2\<close> for every chunk but the last and
  \<open>0\<close> for the last, so \<open>0\<close> is returned exactly once; \<^verbatim>\<open>get_message\<close> then pops
  exactly that frame (the 126 bytes and the terminator) and leaves no valid byte.

  Extraction in general, for a buffer with \<open>inbuf\<close> valid bytes. When the valid bytes
  hold a terminator, \<^verbatim>\<open>get_message\<close> succeeds: it returns the bytes up to and including
  the first terminator, lowers the count of valid bytes by the length of that frame,
  keeps the size of the buffer, and leaves the unread bytes at offset 0 of the buffer in
  their order, none lost and none repeated. In particular, for a payload without CR
  followed by CRLF and any unread bytes \<open>rest\<close>, it returns the payload with its CRLF,
  and the buffer then starts with \<open>rest\<close>, the count being the length of \<open>rest\<close>.
  When the valid bytes hold no terminator it fails and changes nothing. Conversely,
  whenever it succeeds, what it returned is the frame up to the first terminator, and
  count and buffer are as described.
\<close>

theorem codec_split_frame:
  "(\<forall>chunks k fd buf.
      concat chunks = replicate 126 CHR ''A'' @ CRLF \<and> [] \<notin> set chunks
      \<and> length buf = nat BUF_SIZE \<and> fd \<in> opened k \<and> inq k fd = map Bytes chunks
      \<longrightarrow> (\<exists>buf' k'.
             repeated_reads (length chunks) k fd buf 0
               = (replicate (length chunks - 1) 2 @ [0], buf', 128, k')
             \<and> take 128 buf' = replicate 126 CHR ''A'' @ CRLF
             \<and> get_message buf' 128
               = (0, replicate 126 CHR ''A'' @ CRLF, memmove_front buf' 128 0, 0)))
   \<and> (\<forall>src inbuf dst src' inbuf'.
        0 \<le> inbuf \<and> inbuf \<le> int (length src) \<and> get_message src inbuf = (0, dst, src', inbuf')
        \<longrightarrow> crlf_end (take (nat inbuf) src) = Some (length dst)
          \<and> dst = take (length dst) src
          \<and> inbuf' = inbuf - int (length dst)
          \<and> length src' = length src
          \<and> take (nat inbuf') src' = drop (length dst) (take (nat inbuf) src))
   \<and> (\<forall>src inbuf n.
        0 \<le> inbuf \<and> inbuf \<le> int (length src) \<and> crlf_end (take (nat inbuf) src) = Some n
        \<longrightarrow> (\<exists>src'. get_message src inbuf = (0, take n src, src', inbuf - int n)
               \<and> length src' = length src
               \<and> take (nat inbuf - n) src' = drop n (take (nat inbuf) src)))
   \<and> (\<forall>payload rest pad.
        CR \<notin> set payload
        \<longrightarrow> (\<exists>src'. get_message (payload @ CRLF @ rest @ pad)
                        (int (length payload) + 2 + int (length rest))
                      = (0, payload @ CRLF, src', int (length rest))
               \<and> length src' = length (payload @ CRLF @ rest @ pad)
               \<and> take (length rest) src' = rest))
   \<and> (\<forall>src inbuf.
        0 \<le> inbuf \<and> inbuf \<le> int (length src) \<and> crlf_end (take (nat inbuf) src) = None
        \<longrightarrow> get_message src inbuf = (1, [], src, inbuf))"
proof (intro conjI allI impI)
  fix chunks and k :: kernel and fd and buf :: "char list"
  let ?full = "replicate 126 CHR ''A'' @ CRLF"
  assume a: "concat chunks = ?full \<and> [] \<notin> set chunks
      \<and> length buf = nat BUF_SIZE \<and> fd \<in> opened k \<and> inq k fd = map Bytes chunks"
  have full: "crlf_end ?full = Some (length ?full)" "int (length ?full) < BUF_SIZE"
    by (simp_all add: crlf_end_plain_crlf BUF_SIZE_val)
  from a have ne: "chunks \<noteq> []" by auto
  from a have p: "[] @ concat chunks = ?full" "[] \<notin> set chunks" "take (length ([]::char list)) buf = []"
    "length buf = nat BUF_SIZE" "fd \<in> opened k" "inq k fd = map Bytes chunks @ []"
    by simp_all
  from split_frame_reads [OF full p(1,2) ne p(3-6)]
  obtain buf' k' where
    r: "repeated_reads (length chunks) k fd buf 0
          = (replicate (length chunks - 1) 2 @ [0], buf', int (length ?full), k')"
    and t: "take (length ?full) buf' = ?full" and l: "length buf' = length buf"
    by auto
  have len: "length ?full = 128" by simp
  from l a have b: "(0::int) \<le> 128" "128 \<le> int (length buf')" by (simp_all add: BUF_SIZE_val)
  from t full(1) have "crlf_end (take (nat 128) buf') = Some 128" by (simp only: len) simp
  from get_message_frame [OF b this] t
  have "get_message buf' 128 = (0, ?full, memmove_front buf' 128 0, 0)"
    by (simp only: len) simp
  moreover from t have "take 128 buf' = ?full" by (simp only: len)
  ultimately show "\<exists>buf' k'.
             repeated_reads (length chunks) k fd buf 0
               = (replicate (length chunks - 1) 2 @ [0], buf', 128, k')
             \<and> take 128 buf' = ?full
             \<and> get_message buf' 128 = (0, ?full, memmove_front buf' 128 0, 0)"
    using r by (simp only: len) auto
next
  fix src inbuf dst src' inbuf'
  assume "0 \<le> inbuf \<and> inbuf \<le> int (length src) \<and> get_message src inbuf = (0, dst, src', inbuf')"
  then have b: "0 \<le> inbuf" "inbuf \<le> int (length src)"
    and g: "get_message src inbuf = (0, dst, src', inbuf')" by blast+
  note ok = get_message_ok [OF b g]
  from ok show "crlf_end (take (nat inbuf) src) = Some (length dst)" by blast
  from ok show "dst = take (length dst) src" by blast
  from ok show "inbuf' = inbuf - int (length dst)" by blast
  from ok show "length src' = length src" by blast
  from ok show "take (nat inbuf') src' = drop (length dst) (take (nat inbuf) src)" by blast
next
  fix src :: "char list" and inbuf n
  assume "0 \<le> inbuf \<and> inbuf \<le> int (length src) \<and> crlf_end (take (nat inbuf) src) = Some n"
  then show "\<exists>src'. get_message src inbuf = (0, take n src, src', inbuf - int n)
               \<and> length src' = length src
               \<and> take (nat inbuf - n) src' = drop n (take (nat inbuf) src)"
    using get_message_shift by blast
next
  fix payload rest pad :: "char list"
  assume cr: "CR \<notin> set payload"
  let ?src = "payload @ CRLF @ rest @ pad"
  let ?inbuf = "int (length payload) + 2 + int (length rest)"
  let ?n = "length payload + 2"
  have ni: "nat ?inbuf = length (payload @ CRLF @ rest)" by simp
  have "take (length xs) (xs @ pad) = xs" for xs :: "char list" by simp
  from this [of "payload @ CRLF @ rest"]
  have tk: "take (nat ?inbuf) ?src = payload @ CRLF @ rest"
    unfolding ni by (simp only: append_assoc)
  have b: "0 \<le> ?inbuf" "?inbuf \<le> int (length ?src)" by simp_all
  have c: "crlf_end (take (nat ?inbuf) ?src) = Some ?n"
    unfolding tk using cr by (rule crlf_end_payload)
  from get_message_shift [OF b c] obtain src' where
    g: "get_message ?src ?inbuf = (0, take ?n ?src, src', ?inbuf - int ?n)"
    and l: "length src' = length ?src"
    and t: "take (nat ?inbuf - ?n) src' = drop ?n (take (nat ?inbuf) ?src)"
    by blast
  have f: "take ?n ?src = payload @ CRLF" by simp
  have d: "drop ?n (payload @ CRLF @ rest) = rest" by simp
  have m: "nat ?inbuf - ?n = length rest" by simp
  have i: "?inbuf - int ?n = int (length rest)" by simp
  from t have "take (length rest) src' = rest" unfolding tk d m .
  with g l show "\<exists>src'. get_message ?src ?inbuf = (0, payload @ CRLF, src', int (length rest))
               \<and> length src' = length ?src \<and> take (length rest) src' = rest"
    unfolding f i by blast
next
  fix src :: "char list" and inbuf
  assume "0 \<le> inbuf \<and> inbuf \<le> int (length src) \<and> crlf_end (take (nat inbuf) src) = None"
  then show "get_message src inbuf = (1, [], src, inbuf)"
    using get_message_none by blast
qed

text \<open>
  The frame cut between its CR and its LF; and the frame \<open>ab\<close> with the unread bytes
  \<open>cd\<close> behind it, which extraction moves to the front of the buffer.
\<close>

theorem codec_split_frame_witness:
  "(\<exists>buf' k'.
     repeated_reads 2
       \<lparr>opened = {4}, inq = (\<lambda>fd. [Bytes (replicate 126 CHR ''A'' @ [CR]), Bytes [LF]]),
        wq = (\<lambda>fd. []), sent = (\<lambda>fd. []), tty = []\<rparr> 4 (replicate 131 NUL) 0
       = ([2, 0], buf', 128, k')
     \<and> get_message buf' 128 = (0, replicate 126 CHR ''A'' @ CRLF, memmove_front buf' 128 0, 0))
   \<and> (\<exists>src'. get_message (''ab'' @ CRLF @ ''cd'' @ replicate 125 NUL) 6
                 = (0, ''ab'' @ CRLF, src', 2)
          \<and> length src' = 131 \<and> take 2 src' = ''cd'')"
proof -
  let ?chunks = "[replicate 126 CHR ''A'' @ [CR], [LF]]"
  let ?k = "\<lparr>opened = {4::int}, inq = (\<lambda>fd::int. map Bytes ?chunks),
        wq = (\<lambda>fd. []), sent = (\<lambda>fd. []), tty = []\<rparr>"
  have h: "concat ?chunks = replicate 126 CHR ''A'' @ CRLF \<and> [] \<notin> set ?chunks
      \<and> length (replicate 131 NUL) = nat BUF_SIZE \<and> 4 \<in> opened ?k
      \<and> inq ?k 4 = map Bytes ?chunks"
    by (simp add: BUF_SIZE_val)
  from codec_split_frame [THEN conjunct1, rule_format, OF h]
  have one: "\<exists>buf' k'.
     repeated_reads 2 ?k 4 (replicate 131 NUL) 0 = ([2, 0], buf', 128, k')
     \<and> get_message buf' 128 = (0, replicate 126 CHR ''A'' @ CRLF, memmove_front buf' 128 0, 0)"
    by (simp del: repeated_reads.simps add: numeral_2_eq_2) blast
  have cr: "CR \<notin> set ''ab''" by simp
  from codec_split_frame [THEN conjunct2, THEN conjunct2, THEN conjunct2, THEN conjunct1,
      rule_format, OF cr, of "''cd''" "replicate 125 NUL"]
  have two: "\<exists>src'. get_message (''ab'' @ CRLF @ ''cd'' @ replicate 125 NUL) 6
                 = (0, ''ab'' @ CRLF, src', 2)
          \<and> length src' = 131 \<and> take 2 src' = ''cd''"
    by (simp add: numeral_2_eq_2)
  from one two show ?thesis by simp
qed

section \<open>Output and C strings\<close>

text \<open>
  Modelled from the spec: \<^verbatim>\<open>display_message\<close> of \<^verbatim>\<open>io_helpers.c\<close>, which is not
  among the sources. The spec has the program surface a text on the operator's own
  output; the model appends the text to the terminal record of the kernel state.
\<close>

definition display_message :: "kernel \<Rightarrow> string \<Rightarrow> kernel" where
  "display_message k str = k\<lparr>tty := tty k @ [str]\<rparr>"

text \<open>
  Modelled from the spec: \<^verbatim>\<open>display_error\<close> of \<^verbatim>\<open>io_helpers.c\<close>, which is not
  among the sources. The spec has diagnostics printed with a distinguishing prefix; the
  model appends prefix and text as one entry of the terminal record.
\<close>

definition display_error :: "kernel \<Rightarrow> string \<Rightarrow> string \<Rightarrow> kernel" where
  "display_error k pre str = k\<lparr>tty := tty k @ [pre @ str]\<rparr>"

text \<open>
  A C string read off a byte array ends before the first \<^verbatim>\<open>'\0'\<close>;
  \<^verbatim>\<open>strnlen\<close> is its length, capped.
\<close>

definition cstr :: "char list \<Rightarrow> string" where
  "cstr bs = takeWhile (\<lambda>c. c \<noteq> NUL) bs"

definition strnlen :: "char list \<Rightarrow> int \<Rightarrow> int" where
  "strnlen bs n = min (int (length (cstr bs))) n"

section \<open>The chat client (client.c)\<close>

text \<open>
  \<^verbatim>\<open>_recieve_message\<close> is two loops. The first reads until \<^verbatim>\<open>read_from_socket\<close>
  returns 0, giving up on \<open>-1\<close> and on \<open>1\<close>; it goes round on the code \<open>2\<close> only,
  and every such read adds at least one byte to a buffer that is not yet full, which
  bounds the number of rounds.
\<close>

lemma read_from_socket_partial:
  assumes "read_from_socket k fd buf inbuf = (r, buf', inbuf', k')"
    and "r \<noteq> 0" "r \<noteq> -1" "r \<noteq> 1"
  shows "inbuf < inbuf' \<and> inbuf' < BUF_SIZE"
proof -
  obtain n bs k1 where sr: "sys_read k fd (nat (BUF_SIZE - inbuf)) = (n, bs, k1)"
    by (cases "sys_read k fd (nat (BUF_SIZE - inbuf))") auto
  from sys_read_cases [OF sr] assms sr show ?thesis
    by (auto simp: read_from_socket_def Let_def split: if_splits)
qed

function recv_read :: "kernel \<Rightarrow> int \<Rightarrow> char list \<Rightarrow> int \<Rightarrow> int \<times> char list \<times> int \<times> kernel" where
  "recv_read k fd buf inbuf =
     (case read_from_socket k fd buf inbuf of
        (client_closed, buf', inbuf', k') \<Rightarrow>
          if client_closed \<noteq> 0
          then (if client_closed = -1
                then (-1, buf', inbuf',
                      sys_close (display_error k' ''ERROR: '' ''server read error'') fd)
                else if client_closed = 1
                then (1, buf', inbuf',
                      sys_close (display_error k' ''ERROR: '' ''Server disconnected'') fd)
                else recv_read k' fd buf' inbuf')
          else (0, buf', inbuf', k'))"
  by pat_completeness auto
termination
proof (relation "measure (\<lambda>(k, fd, buf, inbuf). nat (BUF_SIZE - inbuf))", goal_cases)
  case 1
  show ?case by simp
next
  case (2 k fd buf inbuf x y xa ya xb yb)
  then have "read_from_socket k fd buf inbuf = (x, xa, xb, yb)" by (metis)
  from read_from_socket_partial [OF this] 2 show ?case by simp
qed

declare recv_read.simps [simp del]

text \<open>
  The second loop, \<^verbatim>\<open>while (msg_len <= 2)\<close>, extracts frames from the buffer and
  does not read the socket again. It is entered with \<^verbatim>\<open>client_closed == 0\<close>, the exit
  condition of the first loop. Nothing in the code bounds its rounds, so it is a partial
  function: \<open>None\<close> is the loop that never leaves. The arguments are the loop's variables;
  \<open>msg\<close> is the C string \<^verbatim>\<open>*msg\<close> points to.
\<close>

partial_function (option) recv_extract ::
  "kernel \<Rightarrow> int \<Rightarrow> char list \<Rightarrow> int \<Rightarrow> int \<Rightarrow> string
     \<Rightarrow> (int \<times> string \<times> char list \<times> int \<times> kernel) option" where
  "recv_extract k fd buf inbuf msg_len msg =
     (if msg_len \<le> 2
      then (case get_message buf inbuf of
              (failed, dst, buf', inbuf') \<Rightarrow>
                if failed = 0
                then (let msg_len' = strnlen dst MAX_PROTO_MSG
                      in if msg_len' \<le> 2
                         then recv_extract k fd buf' inbuf' msg_len' (cstr dst)
                         else if msg_len' > MAX_PROTO_MSG
                         then Some (1, cstr dst, buf', inbuf',
                                    sys_close (display_error k ''ERROR: '' ''Server disconnected'') fd)
                         else recv_extract k fd buf' inbuf' msg_len'
                                (take (nat (msg_len' - 2)) (cstr dst)))
                else recv_extract k fd buf inbuf msg_len msg)
      else Some (0, msg, buf, inbuf, k))"



definition recieve_message ::
  "kernel \<Rightarrow> int \<Rightarrow> char list \<Rightarrow> int \<Rightarrow> (int \<times> string \<times> char list \<times> int \<times> kernel) option" where
  "recieve_message k fd buf inbuf =
     (case recv_read k fd buf inbuf of
        (client_closed, buf', inbuf', k') \<Rightarrow>
          if client_closed \<noteq> 0 then Some (client_closed, [], buf', inbuf', k')
          else recv_extract k' fd buf' inbuf' (-1) [])"

text \<open>
  \<^verbatim>\<open>_get_client_id\<close> converts the frame with \<^verbatim>\<open>strtol(msg, NULL, 10)\<close> and looks at
  \<^verbatim>\<open>errno\<close> only. \<open>strtol\<close> below is the C library's function for base 10 as glibc
  implements it: optional white space, an optional sign, the longest run of digits; with
  no digit at all the result is 0 and \<^verbatim>\<open>errno\<close> is left alone; \<^verbatim>\<open>errno\<close> is set
  (\<^verbatim>\<open>ERANGE\<close>, the second component) only when the number does not fit a
  \<^verbatim>\<open>long\<close>. The assignment to the \<^verbatim>\<open>int\<close> \<^verbatim>\<open>*client_id\<close> keeps the low 32 bits.
\<close>

definition isspace :: "char \<Rightarrow> bool" where
  "isspace c = (c \<in> {CHR '' '', CHR 0x09, CHR 0x0A, CHR 0x0B, CHR 0x0C, CHR 0x0D})"

definition isdigit :: "char \<Rightarrow> bool" where
  "isdigit c = (48 \<le> (of_char c :: nat) \<and> (of_char c :: nat) \<le> 57)"

fun digits_value :: "string \<Rightarrow> int \<Rightarrow> int" where
  "digits_value [] acc = acc"
| "digits_value (c # cs) acc = digits_value cs (10 * acc + (of_char c - 48))"

definition LONG_MAX :: int where
  "LONG_MAX = 2 ^ 63 - 1"

definition strtol :: "string \<Rightarrow> int \<times> bool" where
  "strtol s =
     (let s1 = dropWhile isspace s;
          neg = (case s1 of c # r \<Rightarrow> c = CHR ''-'' | [] \<Rightarrow> False);
          s2 = (case s1 of c # r \<Rightarrow> (if c = CHR ''-'' \<or> c = CHR ''+'' then r else s1) | [] \<Rightarrow> s1);
          v = digits_value (takeWhile isdigit s2) 0;
          v' = (if neg then - v else v)
      in if v' > LONG_MAX then (LONG_MAX, True)
         else if v' < - LONG_MAX - 1 then (- LONG_MAX - 1, True)
         else (v', False))"

definition int_of_long :: "int \<Rightarrow> int" where
  "int_of_long v = (v + 2 ^ 31) mod 2 ^ 32 - 2 ^ 31"

definition get_client_id ::
  "kernel \<Rightarrow> int \<Rightarrow> char list \<Rightarrow> int \<Rightarrow> int
     \<Rightarrow> (int \<times> int \<times> char list \<times> int \<times> kernel) option" where
  "get_client_id k fd buf inbuf client_id =
     (case recieve_message k fd buf inbuf of
        None \<Rightarrow> None
      | Some (ret, msg, buf', inbuf', k') \<Rightarrow>
          if ret = -1 then Some (-1, client_id, buf', inbuf', k')
          else if ret = 1 then Some (1, client_id, buf', inbuf', k')
          else (case strtol msg of
                  (v, erange) \<Rightarrow>
                    if erange
                    then Some (-1, int_of_long v, buf', inbuf',
                               sys_close (display_error k' ''ERROR: '' ''Server disconnected'') fd)
                    else Some (0, int_of_long v, buf', inbuf', k')))"

text \<open>
  \<^verbatim>\<open>client\<close> up to the chat loop, once the connection is set up: it returns 0 when
  \<^verbatim>\<open>_get_client_id\<close> returns 1, returns \<open>-1\<close> when that returns \<open>-1\<close>, and otherwise
  enters the chat loop with the id it was given.
\<close>

datatype client_outcome = Returned int kernel | Chatting int "char list" int kernel

definition client_handshake ::
  "kernel \<Rightarrow> int \<Rightarrow> char list \<Rightarrow> int \<Rightarrow> client_outcome option" where
  "client_handshake k fd buf client_id =
     (case get_client_id k fd buf 0 client_id of
        None \<Rightarrow> None
      | Some (ret, client_id', buf', inbuf', k') \<Rightarrow>
          if ret = 1 then Some (Returned 0 k')
          else if ret = -1 then Some (Returned (-1) k')
          else Some (Chatting client_id' buf' inbuf' k'))"

subsection \<open>The receive loop\<close>

text \<open>
  Once \<^verbatim>\<open>get_message\<close> fails while \<^verbatim>\<open>msg_len\<close> is at most 2, a round of the second
  loop changes nothing, so the loop never leaves.
\<close>

lemma recv_extract_stuck:
  assumes "fst (get_message buf inbuf) \<noteq> 0" and "msg_len \<le> 2"
  shows "recv_extract k fd buf inbuf msg_len msg = None"
proof (cases "recv_extract k fd buf inbuf msg_len msg")
  case (Some y)
  then have "\<not> (fst (get_message buf inbuf) \<noteq> 0 \<and> msg_len \<le> 2)"
  proof (induction rule: recv_extract.raw_induct [rotated 1, consumes 1])
    case (1 f k fd buf inbuf msg_len msg y)
    show ?case
    proof
      assume s: "fst (get_message buf inbuf) \<noteq> 0 \<and> msg_len \<le> 2"
      with 1(2) have "f k fd buf inbuf msg_len msg = Some y"
        by (auto split: prod.splits)
      from 1(1) [of k fd buf inbuf msg_len msg y] this s show False by blast
    qed
  qed
  with assms show ?thesis by simp
qed simp


text \<open>
  \<^bold>\<open>C10.\<close> The receive loop does not terminate for every input stream. When the
  bytes that have arrived are the empty frame CRLF alone, the first loop returns with
  a frame ready, the second loop pops it, finds \<^verbatim>\<open>msg_len = 2\<close>, goes round, and
  from then on \<^verbatim>\<open>get_message\<close> fails on the empty buffer with \<^verbatim>\<open>msg_len\<close>
  unchanged: \<^verbatim>\<open>_recieve_message\<close> neither returns a payload nor ends the session.
\<close>

theorem recieve_message_spins:
  "recieve_message
     \<lparr>opened = {3}, inq = (\<lambda>fd. [])(3 := [Bytes CRLF]),
      wq = (\<lambda>fd. []), sent = (\<lambda>fd. []), tty = []\<rparr> 3 (replicate 131 NUL) 0 = None"
proof -
  let ?k = "\<lparr>opened = {3::int}, inq = (\<lambda>fd::int. [])(3 := [Bytes CRLF]),
      wq = (\<lambda>fd. []), sent = (\<lambda>fd. []), tty = []\<rparr>"
  let ?k' = "?k\<lparr>inq := (inq ?k)(3 := [])\<rparr>"
  let ?b = "CR # LF # replicate 129 NUL"
  have rd: "recv_read ?k 3 (replicate 131 NUL) 0 = (0, ?b, 2, ?k')"
    apply (subst recv_read.simps)
    apply (simp add: read_from_socket_def sys_read_def BUF_SIZE_val store_def
        find_network_newline_def Let_def)
    apply (simp add: fnn_from.simps)
    done
  have g1: "get_message ?b 2 = (0, CRLF, ?b, 0)"
    by (simp add: get_message_def find_network_newline_def fnn_from.simps memmove_front_def store_def)
  have g2: "fst (get_message ?b 0) \<noteq> 0"
    by (simp add: get_message_def find_network_newline_def fnn_from.simps)
  have "recv_extract ?k' 3 ?b 2 (-1) [] = recv_extract ?k' 3 ?b 0 2 CRLF"
    by (subst recv_extract.simps)
       (simp add: g1 strnlen_def cstr_def MAX_PROTO_MSG_def MAX_USER_MSG_def)
  also have "\<dots> = None" using g2 by (rule recv_extract_stuck) simp
  finally show ?thesis using rd by (simp add: recieve_message_def)
qed

subsection \<open>The first frame\<close>

text \<open>
  \<^bold>\<open>C9.\<close> A first frame that is not a number does not end the session. On the
  frame \<open>abc\<close> the conversion returns 0 without setting \<^verbatim>\<open>errno\<close>, so
  \<^verbatim>\<open>_get_client_id\<close> returns 0 and the client enters the chat loop with id 0 (the
  variable held 7 before, to tell the two apart), its descriptor still open and nothing
  printed.
\<close>

theorem get_client_id_accepts_text:
  "client_handshake
     \<lparr>opened = {3}, inq = (\<lambda>fd. [])(3 := [Bytes (''abc'' @ CRLF)]),
      wq = (\<lambda>fd. []), sent = (\<lambda>fd. []), tty = []\<rparr> 3 (replicate 131 NUL) 7
   = Some (Chatting 0 (''abc'' @ CRLF @ replicate 126 NUL) 0
       \<lparr>opened = {3}, inq = (\<lambda>fd. [])(3 := []),
        wq = (\<lambda>fd. []), sent = (\<lambda>fd. []), tty = []\<rparr>)"
proof -
  let ?k = "\<lparr>opened = {3::int}, inq = (\<lambda>fd::int. [])(3 := [Bytes (''abc'' @ CRLF)]),
      wq = (\<lambda>fd. []), sent = (\<lambda>fd. []), tty = []\<rparr>"
  let ?k' = "?k\<lparr>inq := (inq ?k)(3 := [])\<rparr>"
  let ?b = "CHR ''a'' # CHR ''b'' # CHR ''c'' # CR # LF # replicate 126 NUL"
  have rd: "recv_read ?k 3 (replicate 131 NUL) 0 = (0, ?b, 5, ?k')"
    apply (subst recv_read.simps)
    apply (simp add: read_from_socket_def sys_read_def BUF_SIZE_val store_def
        find_network_newline_def Let_def)
    apply (simp add: fnn_from.simps)
    done
  have g1: "get_message ?b 5 = (0, ''abc'' @ CRLF, ?b, 0)"
    by (simp add: get_message_def find_network_newline_def fnn_from.simps memmove_front_def store_def)
  have "recv_extract ?k' 3 ?b 5 (-1) [] = recv_extract ?k' 3 ?b 0 5 ''abc''"
    by (subst recv_extract.simps)
       (simp add: g1 strnlen_def cstr_def MAX_PROTO_MSG_def MAX_USER_MSG_def)
  also have "\<dots> = Some (0, ''abc'', ?b, 0, ?k')"
    by (subst recv_extract.simps) simp
  finally have rm: "recieve_message ?k 3 (replicate 131 NUL) 0 = Some (0, ''abc'', ?b, 0, ?k')"
    using rd by (simp add: recieve_message_def)
  have st: "strtol ''abc'' = (0, False)"
    by (simp add: strtol_def isspace_def isdigit_def LONG_MAX_def Let_def)
  show ?thesis using rm
    by (simp add: client_handshake_def get_client_id_def st int_of_long_def)
qed

section \<open>The chat server (server.c, chat_helpers.c)\<close>

text \<open>
  \<^verbatim>\<open>snprintf(buf, BUF_SIZE, "%d", n)\<close>: the decimal text of an \<^verbatim>\<open>int\<close>, at most 11
  characters, so never cut by the bound.
\<close>

fun decimal :: "nat \<Rightarrow> string" where
  "decimal n =
     (if n < 10 then [char_of (48 + n)]
      else decimal (n div 10) @ [char_of (48 + n mod 10)])"

declare decimal.simps [simp del]

definition dec :: "int \<Rightarrow> string" where
  "dec i = (if i < 0 then CHR ''-'' # decimal (nat (- i)) else decimal (nat i))"

text \<open>
  \<^verbatim>\<open>write_to_socket\<close>: the loop writes what is left until all \<open>len\<close> bytes are
  out; it returns 1 when a write fails, 2 when a write takes nothing, and 0 at the end.
  A write that is not a failure takes at least one byte or none, which bounds the loop.
\<close>

lemma sys_write_result: "sys_write k fd bs = (n, k') \<Longrightarrow> n = -1 \<or> 0 \<le> n"
  by (auto simp: sys_write_def split: if_splits list.splits wev.splits)

function write_loop :: "kernel \<Rightarrow> int \<Rightarrow> char list \<Rightarrow> int \<Rightarrow> int \<Rightarrow> int \<times> kernel" where
  "write_loop k sock_fd bs len total_written =
     (if total_written < len
      then (case sys_write k sock_fd
                   (take (nat (len - total_written)) (drop (nat total_written) bs)) of
              (bytes_written, k') \<Rightarrow>
                if bytes_written = -1 then (1, k')
                else if bytes_written = 0 then (2, k')
                else write_loop k' sock_fd bs len (total_written + bytes_written))
      else (0, k))"
  by pat_completeness auto

termination
proof (relation "measure (\<lambda>(k, sock_fd, bs, len, total_written). nat (len - total_written))",
    goal_cases)
  case 1
  show ?case by simp
next
  case (2 k sock_fd bs len total_written bytes_written k')
  then have "sys_write k sock_fd (take (nat (len - total_written)) (drop (nat total_written) bs))
      = (bytes_written, k')" by simp
  from sys_write_result [OF this] 2 show ?case by auto
qed

declare write_loop.simps [simp del]

text \<open>
  \<^verbatim>\<open>write_buf_to_client\<close> stores CRLF at offset \<open>len\<close> of the caller's buffer and
  writes \<open>len + 2\<close> bytes. Its callers pass the length of the string in the buffer, and
  the buffer has \<open>BUF_SIZE\<close> bytes, so the two stores are inside it when
  \<open>len \<le> BUF_SIZE - 2\<close>. The test for a terminating \<^verbatim>\<open>'\0'\<close> never fails
  (\<^verbatim>\<open>strchr(buf, '\0')\<close> is never null).
\<close>

definition write_to_socket :: "kernel \<Rightarrow> int \<Rightarrow> char list \<Rightarrow> int \<Rightarrow> int \<times> kernel" where
  "write_to_socket k sock_fd bs len = write_loop k sock_fd bs len 0"

definition write_buf_to_client :: "kernel \<Rightarrow> int \<Rightarrow> string \<Rightarrow> int \<Rightarrow> int \<times> kernel" where
  "write_buf_to_client k fd str len =
     (if len > BUF_SIZE - 2 then (1, k)
      else write_to_socket k fd (take (nat len) str @ CRLF) (len + 2))"

text \<open>
  \<^verbatim>\<open>_server_commands\<close> first stores \<^verbatim>\<open>'\0'\<close> at \<^verbatim>\<open>msg[data_len - 2]\<close>. For
  \<open>data_len < 2\<close> that store is in front of the array: the behaviour is undefined, and
  the model says so rather than choosing an outcome. Otherwise the string is then the
  first \<open>data_len - 2\<close> bytes of the message, and the frame is the status query when
  what follows its first colon is exactly \<open>connected_token\<close>, the backslash followed by
  \<open>connected\<close>. The reply is the decimal text of the live count. The function returns
  2 only when the reply meets a zero-length write, 1 for a query otherwise (also when the
  write fails), and 0 for any other frame.
\<close>

datatype 'a result = Undefined | Ok 'a

definition strchr :: "string \<Rightarrow> char \<Rightarrow> string option" where
  "strchr s c = (case dropWhile (\<lambda>x. x \<noteq> c) s of [] \<Rightarrow> None | r \<Rightarrow> Some r)"

definition connected_token :: string where
  "connected_token = CHR 0x5C # ''connected''"

definition server_commands ::
  "kernel \<Rightarrow> int \<Rightarrow> string \<Rightarrow> int \<Rightarrow> int \<Rightarrow> (int \<times> kernel) result" where
  "server_commands k fd msg data_len count =
     (if data_len < 2 then Undefined
      else
        let msg' = take (nat (data_len - 2)) msg
        in case strchr msg' CHR '':'' of
             None \<Rightarrow> Ok (0, k)
           | Some cmd \<Rightarrow>
               if tl cmd \<noteq> [] \<and> tl cmd = connected_token
               then
                 let cmd_reply = dec count;
                     reply_len = strnlen cmd_reply BUF_SIZE
                 in case write_buf_to_client k fd cmd_reply reply_len of
                      (r, k') \<Rightarrow> if r = 2 then Ok (2, k') else Ok (1, k')
               else Ok (0, k))"

text \<open>
  A connection is the \<^verbatim>\<open>struct client_sock\<close> without its \<^verbatim>\<open>next\<close> pointer; the
  registry, a singly linked list in the code, is the list of its nodes in order, and a
  pointer into it is a position. The server state is the local variables of \<^verbatim>\<open>server\<close>
  together with the kernel.
\<close>

record client_sock =
  c_sock_fd :: int
  c_state :: int
  c_buf :: "char list"
  c_inbuf :: int

record server_state =
  clients :: "client_sock list"
  all_fds :: "int set"
  max_fd :: int
  client_count :: int
  client_id :: int
  kern :: kernel

text \<open>
  \<^verbatim>\<open>_remove_client\<close> of \<^verbatim>\<open>server.c\<close>, the only removal the server calls: it
  lowers the live count, clears the descriptor from the watched set and closes it. It
  does not touch the list. (\<^verbatim>\<open>remove_client\<close> of \<^verbatim>\<open>chat_helpers.c\<close>, which unlinks
  and frees a node, has no caller.)
\<close>

definition srv_remove_client :: "server_state \<Rightarrow> int \<Rightarrow> server_state" where
  "srv_remove_client s client_fd =
     s\<lparr>client_count := client_count s - 1,
       all_fds := all_fds s - {client_fd},
       kern := sys_close (kern s) client_fd\<rparr>"

lemma sys_write_opened: "sys_write k fd bs = (n, k') \<Longrightarrow> opened k' = opened k"
  by (auto simp: sys_write_def split: if_splits list.splits wev.splits)

lemma sys_write_closed: "fd \<notin> opened k \<Longrightarrow> sys_write k fd bs = (-1, k)"
  by (simp add: sys_write_def)

lemma write_loop_unfold:
  assumes "t < len"
    and "sys_write k fd (take (nat (len - t)) (drop (nat t) bs)) = (n, k1)"
  shows "write_loop k fd bs len t =
           (if n = -1 then (1, k1) else if n = 0 then (2, k1)
            else write_loop k1 fd bs len (t + n))"
  by (subst write_loop.simps) (simp add: assms)

lemma write_loop_done: "\<not> t < len \<Longrightarrow> write_loop k fd bs len t = (0, k)"
  by (subst write_loop.simps) simp

lemma write_loop_opened: "write_loop k fd bs len t = (r, k') \<Longrightarrow> opened k' = opened k"
proof (induction k fd bs len t rule: write_loop.induct)
  case (1 k fd bs len t)
  show ?case
  proof (cases "t < len")
    case True
    obtain n k1 where w: "sys_write k fd (take (nat (len - t)) (drop (nat t) bs)) = (n, k1)"
      by (cases "sys_write k fd (take (nat (len - t)) (drop (nat t) bs))") auto
    note o = sys_write_opened [OF w]
    note u = write_loop_unfold [OF True w]
    show ?thesis
    proof (cases "n = -1 \<or> n = 0")
      case True
      with u "1.prems" have "k' = k1" by auto
      with o show ?thesis by simp
    next
      case False
      then have n: "n \<noteq> -1" "n \<noteq> 0" by simp_all
      with u "1.prems" have "write_loop k1 fd bs len (t + n) = (r, k')" by simp
      from "1.IH" [OF \<open>t < len\<close> w [symmetric] n this] o
      show ?thesis by simp
    qed
  next
    case False
    with "1.prems" show ?thesis by (simp add: write_loop_done)
  qed
qed

lemma write_loop_disconnect: "write_loop k fd bs len t = (2, k') \<Longrightarrow> fd \<in> opened k"
proof (induction k fd bs len t rule: write_loop.induct)
  case (1 k fd bs len t)
  show ?case
  proof (rule ccontr)
    assume c: "fd \<notin> opened k"
    have "t < len"
    proof (rule ccontr)
      assume "\<not> t < len"
      from write_loop_done [OF this, of k fd bs] "1.prems" show False by simp
    qed
    from write_loop_unfold [OF this sys_write_closed [OF c]] "1.prems" show False by simp
  qed
qed

lemma write_buf_to_client_disconnect: "write_buf_to_client k fd str len = (2, k') \<Longrightarrow> fd \<in> opened k"
  by (auto simp: write_buf_to_client_def write_to_socket_def split: if_splits
      dest: write_loop_disconnect)

lemma write_buf_to_client_opened: "write_buf_to_client k fd str len = (r, k') \<Longrightarrow> opened k' = opened k"
  by (auto simp: write_buf_to_client_def write_to_socket_def split: if_splits
      dest: write_loop_opened)

text \<open>
  The broadcast loop of \<^verbatim>\<open>_process_client_data\<close>, entered with \<^verbatim>\<open>dest_c\<close> at a
  position: on the code 2 the removal routine runs and the loop goes round without
  moving on, otherwise it moves to the next node. A round that follows a removal writes
  to a closed descriptor, which fails with 1, so the loop ends.
\<close>

function broadcast :: "server_state \<Rightarrow> nat \<Rightarrow> string \<Rightarrow> int \<Rightarrow> server_state" where
  "broadcast s dest_c write_buf data_len =
     (if dest_c < length (clients s)
      then (case write_buf_to_client (kern s) (c_sock_fd (clients s ! dest_c)) write_buf data_len of
              (r, k') \<Rightarrow>
                if r = 2
                then broadcast (srv_remove_client (s\<lparr>kern := k'\<rparr>) (c_sock_fd (clients s ! dest_c)))
                       dest_c write_buf data_len
                else broadcast (s\<lparr>kern := k'\<rparr>) (dest_c + 1) write_buf data_len)
      else s)"
  by pat_completeness auto
termination
proof (relation "measure (\<lambda>(s, dest_c, write_buf, data_len).
          2 * (length (clients s) - dest_c)
          + (if dest_c < length (clients s)
                \<and> c_sock_fd (clients s ! dest_c) \<in> opened (kern s) then 1 else 0))",
    goal_cases)
  case 1
  show ?case by simp
next
  case (2 s dest_c write_buf data_len r k')
  then have w: "write_buf_to_client (kern s) (c_sock_fd (clients s ! dest_c)) write_buf data_len
      = (2, k')" by simp
  from write_buf_to_client_disconnect [OF w] 2(1) show ?case
    by (simp add: srv_remove_client_def sys_close_def)
next
  case (3 s dest_c write_buf data_len r k')
  then have "2 * (length (clients s) - Suc dest_c) + 1 < 2 * (length (clients s) - dest_c)"
    by simp
  then show ?case by simp
qed

declare broadcast.simps [simp del]

lemma broadcast_clients: "clients (broadcast s j wb dl) = clients s"
proof (induction s j wb dl rule: broadcast.induct)
  case (1 s j wb dl)
  show ?case
  proof (cases "j < length (clients s)")
    case True
    obtain r k' where w: "write_buf_to_client (kern s) (c_sock_fd (clients s ! j)) wb dl = (r, k')"
      by (cases "write_buf_to_client (kern s) (c_sock_fd (clients s ! j)) wb dl") auto
    show ?thesis
    proof (cases "r = 2")
      case r: True
      from "1.IH"(1) [OF True w [symmetric] r] True w r show ?thesis
        by (subst broadcast.simps) (simp add: srv_remove_client_def)
    next
      case r: False
      from "1.IH"(2) [OF True w [symmetric] r] True w r show ?thesis
        by (subst broadcast.simps) simp
    qed
  next
    case False
    then show ?thesis by (subst broadcast.simps) simp
  qed
qed

text \<open>
  The extraction loop of \<^verbatim>\<open>_process_client_data\<close> for the connection at position
  \<open>i\<close>, entered with \<^verbatim>\<open>client_closed == 0\<close>: it pops a frame, copies at most 127
  bytes of its string into \<^verbatim>\<open>write_buf\<close>, and hands the frame to
  \<^verbatim>\<open>_server_commands\<close>. A query ends the loop (after the removal routine when the
  reply met a zero-length write); any other frame is shown to the operator and
  broadcast, starting at the connection being served, and the loop goes on. Every round
  pops at least two bytes, which bounds the loop.
\<close>

lemma fnn_from_range:
  "fnn_from buf inbuf i = r \<Longrightarrow> r \<noteq> -1 \<Longrightarrow> 0 \<le> i \<Longrightarrow> i + 2 \<le> r \<and> r \<le> inbuf"
proof (induction buf inbuf i rule: fnn_from.induct)
  case (1 buf inbuf i)
  show ?case
  proof (cases "i < inbuf - 1")
    case True
    show ?thesis
    proof (cases "buf ! nat i = CR \<and> buf ! nat (i + 1) = LF")
      case hit: True
      with True "1.prems" show ?thesis by (simp add: fnn_from.simps [of buf inbuf i])
    next
      case miss: False
      with True "1.prems" have "fnn_from buf inbuf (i + 1) = r"
        by (simp add: fnn_from.simps [of buf inbuf i])
      with "1.IH" [OF True miss] "1.prems" show ?thesis by simp
    qed
  next
    case False
    with "1.prems" show ?thesis by (simp add: fnn_from.simps [of buf inbuf i])
  qed
qed

lemma get_message_shrinks:
  assumes "get_message src n = (0, m, b, n')"
  shows "0 \<le> n' \<and> n' < n"
proof -
  from assms have ne: "find_network_newline src n \<noteq> -1"
    and n': "n' = n - find_network_newline src n"
    by (auto simp: get_message_def Let_def split: if_splits)
  from fnn_from_range [of src n 0 "find_network_newline src n"] ne
  have "2 \<le> find_network_newline src n \<and> find_network_newline src n \<le> n"
    by (simp add: find_network_newline_def)
  with n' show ?thesis by simp
qed

function drain :: "server_state \<Rightarrow> nat \<Rightarrow> server_state result" where
  "drain s i =
     (if i < length (clients s)
      then (case get_message (c_buf (clients s ! i)) (c_inbuf (clients s ! i)) of
              (failed, msg, buf', inbuf') \<Rightarrow>
                if failed \<noteq> 0 then Ok s
                else
                  (let c = clients s ! i;
                       s1 = s\<lparr>clients := (clients s)[i := c\<lparr>c_buf := buf', c_inbuf := inbuf'\<rparr>]\<rparr>;
                       write_buf = take (nat (MAX_USER_MSG - 1)) (cstr msg);
                       data_len = int (length write_buf)
                   in case server_commands (kern s1) (c_sock_fd c) (cstr msg) data_len
                             (client_count s1) of
                        Undefined \<Rightarrow> Undefined
                      | Ok (ret, k') \<Rightarrow>
                          if ret > 0
                          then Ok (if ret = 2
                                   then srv_remove_client (s1\<lparr>kern := k'\<rparr>) (c_sock_fd c)
                                   else s1\<lparr>kern := k'\<rparr>)
                          else drain (broadcast (s1\<lparr>kern := display_message k' write_buf\<rparr>)
                                        i write_buf data_len) i))
      else Ok s)"
  by pat_completeness auto
termination
proof (relation "measure (\<lambda>(s, i). nat (c_inbuf (clients s ! i)))", goal_cases)
  case 1
  show ?case by simp
next
  case (2 s i failed y msg ya buf' inbuf' c s1 write_buf data_len x2 ret k')
  then have g: "get_message (c_buf (clients s ! i)) (c_inbuf (clients s ! i)) = (0, msg, buf', inbuf')"
    by simp
  from get_message_shrinks [OF g] 2(1) show ?case
    by (simp add: broadcast_clients 2)
qed

declare drain.simps [simp del]

text \<open>
  One round of the outer loop of \<^verbatim>\<open>_process_client_data\<close> with the cursor at
  position \<open>i\<close>: a connection that is not ready is passed over; otherwise one read, the
  extraction loop when the read returned 0, and then either the removal routine with the
  cursor left where it is (the read returned 1 or \<open>-1\<close>) or a step to the next node.
  The loop itself has no bound in the code and is a partial function.
\<close>

definition read_from_client :: "server_state \<Rightarrow> nat \<Rightarrow> int \<times> server_state" where
  "read_from_client s i =
     (let c = clients s ! i
      in case read_from_socket (kern s) (c_sock_fd c) (c_buf c) (c_inbuf c) of
           (r, buf', inbuf', k') \<Rightarrow>
             (r, s\<lparr>clients := (clients s)[i := c\<lparr>c_buf := buf', c_inbuf := inbuf'\<rparr>],
                   kern := k'\<rparr>))"

definition process_step ::
  "server_state \<Rightarrow> int set \<Rightarrow> nat \<Rightarrow> (server_state \<times> nat) result" where
  "process_step s listen_fds i =
     (if c_sock_fd (clients s ! i) \<notin> listen_fds then Ok (s, i + 1)
      else case read_from_client s i of
        (r, s1) \<Rightarrow>
          let client_closed = (if r = -1 then 1 else r)
          in case (if client_closed = 0 then drain s1 i else Ok s1) of
               Undefined \<Rightarrow> Undefined
             | Ok s2 \<Rightarrow>
                 if client_closed = 1
                 then Ok (srv_remove_client s2 (c_sock_fd (clients s2 ! i)), i)
                 else Ok (s2, i + 1))"

partial_function (option) process_client_data ::
  "server_state \<Rightarrow> int set \<Rightarrow> nat \<Rightarrow> server_state result option" where
  "process_client_data s listen_fds i =
     (if i < length (clients s)
      then (case process_step s listen_fds i of
              Undefined \<Rightarrow> Some Undefined
            | Ok (s', i') \<Rightarrow> process_client_data s' listen_fds i')
      else Some (Ok s))"

text \<open>
  What the environment decides in one iteration of the loop of \<^verbatim>\<open>server\<close>: the
  outcome of \<^verbatim>\<open>select\<close> (interrupted, failed, or the set of ready descriptors), the
  outcome of \<^verbatim>\<open>accept\<close> should it be called (a new descriptor with the reads and
  writes it is going to meet), and whether \<^verbatim>\<open>malloc\<close> succeeds.
\<close>

datatype select_result = Interrupted | SelectFailed | Ready "int set"

datatype accept_result = AcceptFailed | Connection int "rev list" "wev list"

record input =
  sel :: select_result
  acc :: accept_result
  mem :: bool

definition sys_accept :: "kernel \<Rightarrow> accept_result \<Rightarrow> int \<times> kernel" where
  "sys_accept k a =
     (case a of
        AcceptFailed \<Rightarrow> (-1, k)
      | Connection fd rs ws \<Rightarrow>
          (fd, k\<lparr>opened := insert fd (opened k), inq := (inq k)(fd := rs),
                 wq := (wq k)(fd := ws), sent := (sent k)(fd := [])\<rparr>))"

definition accept_connection :: "server_state \<Rightarrow> accept_result \<Rightarrow> bool \<Rightarrow> int \<times> server_state" where
  "accept_connection s a malloc_ok =
     (case sys_accept (kern s) a of
        (client_fd, k') \<Rightarrow>
          if client_fd < 0 then (-1, s\<lparr>kern := k'\<rparr>)
          else if \<not> malloc_ok then (-1, s\<lparr>kern := sys_close k' client_fd\<rparr>)
          else (client_fd,
                s\<lparr>clients := clients s @
                     [\<lparr>c_sock_fd = client_fd, c_state = 0,
                       c_buf = replicate (nat BUF_SIZE) NUL, c_inbuf = 0\<rparr>],
                  kern := k'\<rparr>))"

definition send_client_id :: "server_state \<Rightarrow> int \<Rightarrow> int \<times> server_state" where
  "send_client_id s new_client_fd =
     (let s1 = s\<lparr>client_id := client_id s + 1, client_count := client_count s + 1\<rparr>;
          write_buf = dec (client_id s1);
          msg_len = strnlen write_buf BUF_SIZE
      in case write_buf_to_client (kern s1) new_client_fd write_buf msg_len of
           (ret, k') \<Rightarrow>
             (if ret = 1 then -1 else if ret = 2 then 1 else 0, s1\<lparr>kern := k'\<rparr>))"

text \<open>
  The body of the loop of \<^verbatim>\<open>server\<close> in its three parts; each either falls through
  to the next part, goes back to the head of the loop (\<^verbatim>\<open>continue\<close>), or leaves the
  loop with an exit status (\<^verbatim>\<open>break\<close>). \<^verbatim>\<open>select\<close> leaves in \<^verbatim>\<open>listen_fds\<close> the
  watched descriptors that are ready. What \<^verbatim>\<open>perror\<close> prints is not recorded, and the
  one read of \<^verbatim>\<open>_fd_close\<close> is not interrupted.
\<close>

datatype flow = Next server_state | Again server_state | Exit int server_state

definition accept_block :: "int \<Rightarrow> int set \<Rightarrow> accept_result \<Rightarrow> bool \<Rightarrow> server_state \<Rightarrow> flow" where
  "accept_block s_sock_fd listen_fds a malloc_ok s =
     (if s_sock_fd \<in> listen_fds
      then (case accept_connection s a malloc_ok of
              (client_fd, s1) \<Rightarrow>
                if client_fd < 0 then Again s1
                else
                  let s2 = s1\<lparr>max_fd := max (max_fd s1) client_fd,
                              all_fds := insert client_fd (all_fds s1)\<rparr>
                  in case send_client_id s2 client_fd of
                       (ret, s3) \<Rightarrow>
                         if ret = -1 then Exit (-1) s3
                         else if ret = 1 then Again (srv_remove_client s3 client_fd)
                         else Next s3)
      else Next s)"

definition fd_close :: "kernel \<Rightarrow> int \<Rightarrow> int \<times> kernel" where
  "fd_close k fd =
     (case sys_read k fd 1 of
        (bytes_read, bs, k') \<Rightarrow>
          (if bytes_read < 0 then -1 else if bytes_read = 0 then 1 else 0, k'))"

definition control_block :: "int \<Rightarrow> int set \<Rightarrow> server_state \<Rightarrow> flow" where
  "control_block server_fd listen_fds s =
     (if server_fd \<in> listen_fds
      then (case fd_close (kern s) server_fd of
              (server_closed, k') \<Rightarrow>
                if server_closed < 0 then Exit (-1) (s\<lparr>kern := k'\<rparr>)
                else if server_closed \<noteq> 0 then Exit 0 (s\<lparr>kern := k'\<rparr>)
                else Next (s\<lparr>kern := k'\<rparr>))
      else Next s)"

definition server_iter :: "int \<Rightarrow> int \<Rightarrow> input \<Rightarrow> server_state \<Rightarrow> flow result option" where
  "server_iter s_sock_fd server_fd inp s =
     (case sel inp of
        Interrupted \<Rightarrow> Some (Ok (Again s))
      | SelectFailed \<Rightarrow> Some (Ok (Exit (-1) s))
      | Ready ready \<Rightarrow>
          let listen_fds = ready \<inter> all_fds s
          in case accept_block s_sock_fd listen_fds (acc inp) (mem inp) s of
               Again s1 \<Rightarrow> Some (Ok (Again s1))
             | Exit e s1 \<Rightarrow> Some (Ok (Exit e s1))
             | Next s1 \<Rightarrow>
                 (case control_block server_fd listen_fds s1 of
                    Again s2 \<Rightarrow> Some (Ok (Again s2))
                  | Exit e s2 \<Rightarrow> Some (Ok (Exit e s2))
                  | Next s2 \<Rightarrow>
                      (case process_client_data s2 listen_fds 0 of
                         None \<Rightarrow> None
                       | Some Undefined \<Rightarrow> Some Undefined
                       | Some (Ok s3) \<Rightarrow> Some (Ok (Next s3)))))"

text \<open>
  The state in which \<^verbatim>\<open>server\<close> enters its loop, after the port has been parsed and
  \<^verbatim>\<open>setup_server_socket\<close> (\<^verbatim>\<open>server_setup.c\<close> is not among the sources) has
  returned the listening descriptor, here a parameter. \<open>reaches\<close> holds of the states
  at the head of the loop, together with the number of connections accepted so far; a
  connection counts as accepted when \<^verbatim>\<open>_accept_connection\<close> returns its descriptor.
\<close>

definition server_init :: "int \<Rightarrow> int \<Rightarrow> kernel \<Rightarrow> server_state" where
  "server_init s_sock_fd server_fd k =
     \<lparr>clients = [], all_fds = {s_sock_fd, server_fd}, max_fd = max s_sock_fd server_fd,
      client_count = 0, client_id = 0, kern = k\<rparr>"

definition accepts :: "int \<Rightarrow> input \<Rightarrow> server_state \<Rightarrow> bool" where
  "accepts s_sock_fd inp s =
     (case sel inp of
        Ready ready \<Rightarrow>
          s_sock_fd \<in> ready \<and> s_sock_fd \<in> all_fds s
          \<and> (case acc inp of Connection fd rs ws \<Rightarrow> 0 \<le> fd \<and> mem inp | AcceptFailed \<Rightarrow> False)
      | _ \<Rightarrow> False)"

inductive reaches :: "int \<Rightarrow> int \<Rightarrow> kernel \<Rightarrow> nat \<Rightarrow> server_state \<Rightarrow> bool"
  for s_sock_fd server_fd k where
  start: "reaches s_sock_fd server_fd k 0 (server_init s_sock_fd server_fd k)"
| round: "reaches s_sock_fd server_fd k n s \<Longrightarrow>
          server_iter s_sock_fd server_fd inp s = Some (Ok f) \<Longrightarrow>
          f = Next s' \<or> f = Again s' \<Longrightarrow>
          reaches s_sock_fd server_fd k (n + (if accepts s_sock_fd inp s then 1 else 0)) s'"

section \<open>Properties of the server\<close>

subsection \<open>Writes\<close>

text \<open>What a write leaves alone.\<close>

lemma sys_write_frame:
  assumes "sys_write k fd bs = (n, k')"
  shows "opened k' = opened k \<and> inq k' = inq k \<and> tty k' = tty k
         \<and> (\<forall>fd'. fd' \<noteq> fd \<longrightarrow> sent k' fd' = sent k fd' \<and> wq k' fd' = wq k fd')"
  using assms by (auto simp: sys_write_def split: if_splits list.splits wev.splits)

lemma write_loop_frame:
  "write_loop k fd bs len t = (r, k') \<Longrightarrow>
     opened k' = opened k \<and> inq k' = inq k \<and> tty k' = tty k
     \<and> (\<forall>fd'. fd' \<noteq> fd \<longrightarrow> sent k' fd' = sent k fd' \<and> wq k' fd' = wq k fd')"
proof (induction k fd bs len t rule: write_loop.induct)
  case (1 k fd bs len t)
  show ?case
  proof (cases "t < len")
    case True
    obtain n k1 where w: "sys_write k fd (take (nat (len - t)) (drop (nat t) bs)) = (n, k1)"
      by (cases "sys_write k fd (take (nat (len - t)) (drop (nat t) bs))") auto
    note o = sys_write_frame [OF w]
    note u = write_loop_unfold [OF True w]
    show ?thesis
    proof (cases "n = -1 \<or> n = 0")
      case True
      with u "1.prems" have "k' = k1" by auto
      with o show ?thesis by simp
    next
      case False
      then have n: "n \<noteq> -1" "n \<noteq> 0" by simp_all
      with u "1.prems" have "write_loop k1 fd bs len (t + n) = (r, k')" by simp
      from "1.IH" [OF \<open>t < len\<close> w [symmetric] n this] o
      show ?thesis by simp
    qed
  next
    case False
    with "1.prems" show ?thesis by (simp add: write_loop_done)
  qed
qed

lemma write_buf_to_client_frame:
  "write_buf_to_client k fd str len = (r, k') \<Longrightarrow>
     opened k' = opened k \<and> inq k' = inq k \<and> tty k' = tty k
     \<and> (\<forall>fd'. fd' \<noteq> fd \<longrightarrow> sent k' fd' = sent k fd' \<and> wq k' fd' = wq k fd')"
  by (auto simp: write_buf_to_client_def write_to_socket_def split: if_splits
      dest!: write_loop_frame)

lemma write_buf_to_client_closed:
  assumes "fd \<notin> opened k"
  shows "\<exists>r. write_buf_to_client k fd str len = (r, k) \<and> r \<noteq> 2"
proof (cases "len > BUF_SIZE - 2")
  case True
  then show ?thesis by (simp add: write_buf_to_client_def)
next
  case False
  show ?thesis
  proof (cases "0 < len + 2")
    case True
    from write_loop_unfold [OF True sys_write_closed [OF assms]] False
    show ?thesis by (simp add: write_buf_to_client_def write_to_socket_def)
  next
    case f: False
    from write_loop_done [OF f] False
    show ?thesis by (simp add: write_buf_to_client_def write_to_socket_def)
  qed
qed

lemma write_buf_to_client_healthy:
  assumes "fd \<in> opened k" "wq k fd = []" "len = int (length str)" "len \<le> BUF_SIZE - 2"
  shows "write_buf_to_client k fd str len
           = (0, k\<lparr>sent := (sent k)(fd := sent k fd @ str @ CRLF)\<rparr>)"
proof -
  let ?bs = "str @ CRLF"
  let ?k = "k\<lparr>sent := (sent k)(fd := sent k fd @ ?bs)\<rparr>"
  from assms have t: "(0::int) < len + 2" by simp
  have tk: "take (nat (len + 2 - 0)) (drop (nat 0) ?bs) = ?bs" using assms by simp
  have w: "sys_write k fd (take (nat (len + 2 - 0)) (drop (nat 0) ?bs)) = (len + 2, ?k)"
    unfolding tk using assms by (simp add: sys_write_def)
  from assms have n: "len + 2 \<noteq> -1" "len + 2 \<noteq> 0" by simp_all
  have "write_loop k fd ?bs (len + 2) 0 = write_loop ?k fd ?bs (len + 2) (0 + (len + 2))"
    using write_loop_unfold [OF t w] n by simp
  also have "\<dots> = (0, ?k)" by (rule write_loop_done) simp
  finally show ?thesis using assms by (simp add: write_buf_to_client_def write_to_socket_def)
qed

text \<open>
  One destination of the broadcast: the frame is offered to the connection at position
  \<open>p\<close>; when the write reports a disconnect the removal routine is run on its
  descriptor.
\<close>

definition deliver :: "string \<Rightarrow> int \<Rightarrow> nat \<Rightarrow> server_state \<Rightarrow> server_state" where
  "deliver write_buf data_len p s =
     (case write_buf_to_client (kern s) (c_sock_fd (clients s ! p)) write_buf data_len of
        (r, k') \<Rightarrow>
          if r = 2 then srv_remove_client (s\<lparr>kern := k'\<rparr>) (c_sock_fd (clients s ! p))
          else s\<lparr>kern := k'\<rparr>)"

lemma deliver_closed:
  "c_sock_fd (clients s ! p) \<notin> opened (kern s) \<Longrightarrow> deliver wb dl p s = s"
  using write_buf_to_client_closed [of "c_sock_fd (clients s ! p)" "kern s" wb dl]
  by (auto simp: deliver_def)

lemma broadcast_fold:
  "broadcast s j wb dl = fold (deliver wb dl) [j..<length (clients s)] s"
proof (induction s j wb dl rule: broadcast.induct)
  case (1 s j wb dl)
  show ?case
  proof (cases "j < length (clients s)")
    case True
    let ?fd = "c_sock_fd (clients s ! j)"
    obtain r k' where w: "write_buf_to_client (kern s) ?fd wb dl = (r, k')"
      by (cases "write_buf_to_client (kern s) ?fd wb dl") auto
    from True have up: "[j..<length (clients s)] = j # [Suc j..<length (clients s)]"
      by (simp add: upt_conv_Cons)
    show ?thesis
    proof (cases "r = 2")
      case r: True
      let ?s = "srv_remove_client (s\<lparr>kern := k'\<rparr>) ?fd"
      have cl: "clients ?s = clients s" by (simp add: srv_remove_client_def)
      have "?fd \<notin> opened (kern ?s)" by (simp add: srv_remove_client_def sys_close_def)
      then have stay: "deliver wb dl j ?s = ?s" using cl by (simp add: deliver_closed)
      have "broadcast s j wb dl = broadcast ?s j wb dl"
        using True w r by (subst broadcast.simps) simp
      also have "\<dots> = fold (deliver wb dl) [j..<length (clients s)] ?s"
        using "1.IH"(1) [OF True w [symmetric] r] cl by simp
      also have "\<dots> = fold (deliver wb dl) [Suc j..<length (clients s)] ?s"
        using stay by (simp add: up)
      also have "?s = deliver wb dl j s" using w r by (simp add: deliver_def)
      finally show ?thesis by (simp add: up)
    next
      case r: False
      have "broadcast s j wb dl = broadcast (s\<lparr>kern := k'\<rparr>) (j + 1) wb dl"
        using True w r by (subst broadcast.simps) simp
      also have "\<dots> = fold (deliver wb dl) [Suc j..<length (clients s)] (s\<lparr>kern := k'\<rparr>)"
        using "1.IH"(2) [OF True w [symmetric] r] by simp
      also have "s\<lparr>kern := k'\<rparr> = deliver wb dl j s" using w r by (simp add: deliver_def)
      finally show ?thesis by (simp add: up)
    qed
  next
    case False
    then show ?thesis by (subst broadcast.simps) simp
  qed
qed

lemma cstr_plain: "NUL \<notin> set xs \<Longrightarrow> cstr xs = xs"
  by (simp add: cstr_def takeWhile_eq_all_conv) blast

lemma decimal_digits: "c \<in> set (decimal n) \<Longrightarrow> isdigit c"
proof (induction n rule: decimal.induct)
  case (1 n)
  show ?case
  proof (cases "n < 10")
    case True
    with "1.prems" have "c = char_of (48 + n)" by (simp add: decimal.simps [of n])
    with True show ?thesis by (simp add: isdigit_def)
  next
    case False
    with "1.prems" have "c \<in> set (decimal (n div 10)) \<or> c = char_of (48 + n mod 10)"
      by (auto simp: decimal.simps [of n])
    then show ?thesis
    proof
      assume "c \<in> set (decimal (n div 10))"
      with "1.IH" [OF False] show ?thesis .
    next
      assume "c = char_of (48 + n mod 10)"
      moreover have "n mod 10 < 10" by simp
      ultimately show ?thesis by (simp add: isdigit_def)
    qed
  qed
qed

lemma decimal_length: "0 < k \<Longrightarrow> n < 10 ^ k \<Longrightarrow> length (decimal n) \<le> k"
proof (induction n arbitrary: k rule: decimal.induct)
  case (1 n)
  show ?case
  proof (cases "n < 10")
    case True
    with "1.prems" show ?thesis by (simp add: decimal.simps [of n])
  next
    case False
    from "1.prems" False obtain k' where k: "k = Suc k'" "0 < k'"
      by (cases k; cases "k - 1") auto
    with "1.prems" have "n div 10 < 10 ^ k'" by (simp add: less_mult_imp_div_less mult.commute)
    from "1.IH" [OF False k(2) this] False k show ?thesis by (simp add: decimal.simps [of n])
  qed
qed

lemma dec_plain: "NUL \<notin> set (dec x)"
proof
  assume "NUL \<in> set (dec x)"
  then have "NUL = CHR ''-'' \<or> isdigit NUL"
    by (auto simp: dec_def dest: decimal_digits split: if_splits)
  then show False by (simp add: isdigit_def)
qed

lemma dec_length: "- (2 ^ 31) \<le> x \<Longrightarrow> x < 2 ^ 31 \<Longrightarrow> length (dec x) \<le> 11"
proof -
  assume a: "- (2 ^ 31) \<le> x" "x < 2 ^ 31"
  have "nat \<bar>x\<bar> < 10 ^ 10" using a by simp
  from decimal_length [OF _ this] have "length (decimal (nat \<bar>x\<bar>)) \<le> 10" by simp
  then show ?thesis by (auto simp: dec_def abs_if)
qed

lemma strnlen_dec:
  "- (2 ^ 31) \<le> x \<Longrightarrow> x < 2 ^ 31 \<Longrightarrow> strnlen (dec x) BUF_SIZE = int (length (dec x))"
  using dec_length [of x] by (simp add: strnlen_def cstr_plain dec_plain BUF_SIZE_val)

definition after_colon :: "string \<Rightarrow> string option" where
  "after_colon s = map_option tl (strchr s CHR '':'')"

lemma server_commands_plain:
  assumes "2 \<le> data_len" "after_colon (take (nat (data_len - 2)) msg) \<noteq> Some connected_token"
  shows "server_commands k fd msg data_len count = Ok (0, k)"
  using assms
  by (auto simp: server_commands_def after_colon_def Let_def split: option.splits)

lemma server_commands_query:
  assumes "2 \<le> data_len" "after_colon (take (nat (data_len - 2)) msg) = Some connected_token"
    and "- (2 ^ 31) \<le> count" "count < 2 ^ 31"
    and "write_buf_to_client k fd (dec count) (int (length (dec count))) = (r, k')"
  shows "server_commands k fd msg data_len count = Ok (if r = 2 then 2 else 1, k')"
proof -
  from assms(2) obtain cmd where c: "strchr (take (nat (data_len - 2)) msg) CHR '':'' = Some cmd"
    "tl cmd = connected_token"
    by (auto simp: after_colon_def)
  have "connected_token \<noteq> []" by (simp add: connected_token_def)
  with c assms(1,5) strnlen_dec [OF assms(3,4)] show ?thesis
    by (simp add: server_commands_def Let_def)
qed

text \<open>The first frame buffered for the connection at position \<open>i\<close>.\<close>

definition sane :: "client_sock \<Rightarrow> bool" where
  "sane c = (0 \<le> c_inbuf c \<and> c_inbuf c \<le> int (length (c_buf c)))"

definition pop_frame :: "server_state \<Rightarrow> nat \<Rightarrow> nat \<Rightarrow> server_state" where
  "pop_frame s i n =
     s\<lparr>clients := (clients s)
          [i := (clients s ! i)
             \<lparr>c_buf := memmove_front (c_buf (clients s ! i)) n (nat (c_inbuf (clients s ! i)) - n),
              c_inbuf := c_inbuf (clients s ! i) - int n\<rparr>]\<rparr>"

text \<open>
  What \<^verbatim>\<open>snprintf(write_buf, MAX_USER_MSG, "%s", msg)\<close> leaves in \<^verbatim>\<open>write_buf\<close>: the
  string of the frame, cut to 127 bytes. It is the text the server shows and sends. For
  a frame of at most 127 bytes with no \<^verbatim>\<open>'\0'\<close> in it, it is the frame.
\<close>

definition frame_text :: "char list \<Rightarrow> string" where
  "frame_text frame = take (nat (MAX_USER_MSG - 1)) (cstr frame)"

lemma drain_frame:
  assumes i: "i < length (clients s)" and sane: "sane (clients s ! i)"
    and n: "crlf_end (take (nat (c_inbuf (clients s ! i))) (c_buf (clients s ! i))) = Some n"
    and f: "frame = take n (c_buf (clients s ! i))"
  shows "drain s i =
           (case server_commands (kern s) (c_sock_fd (clients s ! i)) (cstr frame)
                   (int (length (frame_text frame))) (client_count s) of
              Undefined \<Rightarrow> Undefined
            | Ok (ret, k') \<Rightarrow>
                if ret > 0
                then Ok (if ret = 2
                         then srv_remove_client (pop_frame s i n\<lparr>kern := k'\<rparr>)
                                (c_sock_fd (clients s ! i))
                         else pop_frame s i n\<lparr>kern := k'\<rparr>)
                else drain (broadcast (pop_frame s i n\<lparr>kern := display_message k' (frame_text frame)\<rparr>)
                              i (frame_text frame) (int (length (frame_text frame)))) i)"
proof -
  let ?c = "clients s ! i"
  from sane have b: "0 \<le> c_inbuf ?c" "c_inbuf ?c \<le> int (length (c_buf ?c))"
    by (simp_all add: sane_def)
  from get_message_frame [OF b n] f
  have g: "get_message (c_buf ?c) (c_inbuf ?c)
      = (0, frame, memmove_front (c_buf ?c) n (nat (c_inbuf ?c) - n), c_inbuf ?c - int n)"
    by simp
  have ft: "take (nat (MAX_USER_MSG - 1)) (cstr frame) = frame_text frame"
    by (simp add: frame_text_def)
  have fl: "min (length (cstr frame)) (nat (MAX_USER_MSG - 1)) = length (frame_text frame)"
    by (simp add: frame_text_def)
  show ?thesis
    by (subst drain.simps)
       (simp add: i g ft fl Let_def pop_frame_def
          cong: result.case_cong prod.case_cong if_cong)
qed

lemma write_buf_to_client_error:
  assumes "fd \<in> opened k" "wq k fd = WFail # ws" "0 \<le> len" "len \<le> BUF_SIZE - 2"
  shows "write_buf_to_client k fd str len = (1, k\<lparr>wq := (wq k)(fd := ws)\<rparr>)"
proof -
  from assms have t: "(0::int) < len + 2" by simp
  have w: "sys_write k fd (take (nat (len + 2 - 0)) (drop (nat 0) (take (nat len) str @ CRLF)))
      = (-1, k\<lparr>wq := (wq k)(fd := ws)\<rparr>)"
    using assms by (simp add: sys_write_def)
  from write_loop_unfold [OF t w] assms show ?thesis
    by (simp add: write_buf_to_client_def write_to_socket_def)
qed

lemma write_buf_to_client_zero:
  assumes "fd \<in> opened k" "wq k fd = Accept 0 # ws" "0 \<le> len" "len \<le> BUF_SIZE - 2"
  shows "write_buf_to_client k fd str len = (2, k\<lparr>wq := (wq k)(fd := ws)\<rparr>)"
proof -
  from assms have t: "(0::int) < len + 2" by simp
  have "k\<lparr>wq := (wq k)(fd := ws), sent := (sent k)(fd := sent k fd)\<rparr> = k\<lparr>wq := (wq k)(fd := ws)\<rparr>"
    by simp
  then have w: "sys_write k fd (take (nat (len + 2 - 0)) (drop (nat 0) (take (nat len) str @ CRLF)))
      = (0, k\<lparr>wq := (wq k)(fd := ws)\<rparr>)"
    using assms by (simp add: sys_write_def)
  from write_loop_unfold [OF t w] assms show ?thesis
    by (simp add: write_buf_to_client_def write_to_socket_def)
qed

lemma deliver_healthy:
  assumes "c_sock_fd (clients t ! p) \<in> opened (kern t)" "wq (kern t) (c_sock_fd (clients t ! p)) = []"
    and "dl = int (length wb)" "dl \<le> BUF_SIZE - 2"
  shows "deliver wb dl p t =
           t\<lparr>kern := (kern t)\<lparr>sent := (sent (kern t))
                (c_sock_fd (clients t ! p) := sent (kern t) (c_sock_fd (clients t ! p)) @ wb @ CRLF)\<rparr>\<rparr>"
  using write_buf_to_client_healthy [OF assms] by (simp add: deliver_def)

lemma drain_empty: "i < length (clients s) \<Longrightarrow> c_inbuf (clients s ! i) \<le> 1 \<Longrightarrow> drain s i = Ok s"
  by (subst drain.simps)
     (simp add: get_message_def find_network_newline_def fnn_from.simps [of _ _ 0])

lemma drain_query:
  assumes i: "i < length (clients s)" and sane: "sane (clients s ! i)"
    and n: "crlf_end (take (nat (c_inbuf (clients s ! i))) (c_buf (clients s ! i))) = Some n"
    and f: "frame = take n (c_buf (clients s ! i))"
    and l: "2 \<le> length (frame_text frame)"
    and q: "after_colon (take (length (frame_text frame) - 2) (cstr frame)) = Some connected_token"
    and c: "- (2 ^ 31) \<le> client_count s" "client_count s < 2 ^ 31"
    and w: "write_buf_to_client (kern s) (c_sock_fd (clients s ! i)) (dec (client_count s))
              (int (length (dec (client_count s)))) = (r, k')"
  shows "drain s i =
           Ok (if r = 2
               then srv_remove_client (pop_frame s i n\<lparr>kern := k'\<rparr>) (c_sock_fd (clients s ! i))
               else pop_frame s i n\<lparr>kern := k'\<rparr>)"
proof -
  from l have n2: "2 \<le> int (length (frame_text frame))" by simp
  have nn: "nat (int (length (frame_text frame)) - 2) = length (frame_text frame) - 2" by simp
  from server_commands_query [OF n2 _ c w, of "cstr frame"] q nn
  have "server_commands (kern s) (c_sock_fd (clients s ! i)) (cstr frame)
      (int (length (frame_text frame))) (client_count s) = Ok (if r = 2 then 2 else 1, k')"
    by simp
  with drain_frame [OF i sane n f] show ?thesis by simp
qed

lemma drain_plain:
  assumes i: "i < length (clients s)" and sane: "sane (clients s ! i)"
    and n: "crlf_end (take (nat (c_inbuf (clients s ! i))) (c_buf (clients s ! i))) = Some n"
    and f: "frame = take n (c_buf (clients s ! i))"
    and l: "2 \<le> length (frame_text frame)"
    and q: "after_colon (take (length (frame_text frame) - 2) (cstr frame)) \<noteq> Some connected_token"
  shows "drain s i =
           drain (fold (deliver (frame_text frame) (int (length (frame_text frame))))
                    [i..<length (clients s)]
                    (pop_frame s i n\<lparr>kern := display_message (kern s) (frame_text frame)\<rparr>)) i"
proof -
  from l have n2: "2 \<le> int (length (frame_text frame))" by simp
  have nn: "nat (int (length (frame_text frame)) - 2) = length (frame_text frame) - 2" by simp
  from server_commands_plain [OF n2, of "cstr frame"] q nn
  have "server_commands (kern s) (c_sock_fd (clients s ! i)) (cstr frame)
      (int (length (frame_text frame))) (client_count s) = Ok (0, kern s)"
    by simp
  with drain_frame [OF i sane n f] show ?thesis
    by (simp add: broadcast_fold pop_frame_def)
qed

lemma dec_small: "dec 1 = ''1''" "dec 2 = ''2''" "dec 3 = ''3''"
  by (simp_all add: dec_def decimal.simps char_of_def bit_iff_odd)

subsection \<open>Reads and the pass over the registry\<close>

text \<open>
  What a read leaves alone, and what the pass does once a read has failed or met the end
  of the stream: the removal routine closes the descriptor and the cursor stays, so every
  later round fails in the same way.
\<close>

lemma sys_read_frame:
  "sys_read k fd n = (r, bs, k') \<Longrightarrow>
     opened k' = opened k \<and> wq k' = wq k \<and> sent k' = sent k \<and> tty k' = tty k"
  by (auto simp: sys_read_def split: if_splits list.splits rev.splits)

lemma sys_read_closed: "fd \<notin> opened k \<Longrightarrow> sys_read k fd n = (-1, [], k)"
  by (simp add: sys_read_def)

lemma read_from_socket_frame:
  assumes "read_from_socket k fd b n = (r, b', n', k')"
  shows "opened k' = opened k \<and> wq k' = wq k \<and> sent k' = sent k \<and> tty k' = tty k \<and> n \<le> n'"
proof -
  obtain m bs k1 where sr: "sys_read k fd (nat (BUF_SIZE - n)) = (m, bs, k1)"
    by (cases "sys_read k fd (nat (BUF_SIZE - n))") auto
  from sys_read_frame [OF sr] sys_read_cases [OF sr] assms sr show ?thesis
    by (auto simp: read_from_socket_def Let_def split: if_splits)
qed

lemma read_from_socket_closed:
  assumes "fd \<notin> opened k"
  shows "read_from_socket k fd b n = (-1, b, n, k)"
  using sys_read_closed [OF assms] by (simp add: read_from_socket_def)

lemma read_from_client_frame:
  assumes "read_from_client s i = (r, s1)" and "i < length (clients s)"
  shows "length (clients s1) = length (clients s)
       \<and> c_sock_fd (clients s1 ! i) = c_sock_fd (clients s ! i)
       \<and> c_inbuf (clients s ! i) \<le> c_inbuf (clients s1 ! i)
       \<and> all_fds s1 = all_fds s \<and> client_count s1 = client_count s
       \<and> client_id s1 = client_id s \<and> max_fd s1 = max_fd s
       \<and> opened (kern s1) = opened (kern s) \<and> wq (kern s1) = wq (kern s)
       \<and> sent (kern s1) = sent (kern s) \<and> tty (kern s1) = tty (kern s)"
proof -
  let ?c = "clients s ! i"
  obtain r' b' n' k' where
    rd: "read_from_socket (kern s) (c_sock_fd ?c) (c_buf ?c) (c_inbuf ?c) = (r', b', n', k')"
    by (cases "read_from_socket (kern s) (c_sock_fd ?c) (c_buf ?c) (c_inbuf ?c)") auto
  with assms(1) have s1: "s1 = s\<lparr>clients := (clients s)[i := ?c\<lparr>c_buf := b', c_inbuf := n'\<rparr>],
      kern := k'\<rparr>"
    by (simp add: read_from_client_def Let_def)
  from read_from_socket_frame [OF rd] assms(2) show ?thesis by (simp add: s1)
qed

lemma read_from_client_closed:
  assumes "c_sock_fd (clients s ! i) \<notin> opened (kern s)"
  shows "read_from_client s i = (-1, s)"
  using read_from_socket_closed [OF assms] by (simp add: read_from_client_def Let_def)

lemma process_step_closed:
  assumes "c_sock_fd (clients s ! i) \<in> listen_fds" and "read_from_client s i = (r, s1)"
    and "r = 1 \<or> r = -1" and "i < length (clients s)"
  shows "process_step s listen_fds i = Ok (srv_remove_client s1 (c_sock_fd (clients s ! i)), i)"
  using assms read_from_client_frame [OF assms(2,4)]
  by (auto simp: process_step_def Let_def)

lemma process_client_data_spin:
  assumes "i < length (clients s)" and "c_sock_fd (clients s ! i) \<in> listen_fds"
    and "c_sock_fd (clients s ! i) \<notin> opened (kern s)"
  shows "process_client_data s listen_fds i = None"
proof (cases "process_client_data s listen_fds i")
  case (Some y)
  then have "\<not> (i < length (clients s) \<and> c_sock_fd (clients s ! i) \<in> listen_fds
      \<and> c_sock_fd (clients s ! i) \<notin> opened (kern s))"
  proof (induction rule: process_client_data.raw_induct [rotated 1, consumes 1])
    case (1 f s listen_fds i y)
    show ?case
    proof
      assume c: "i < length (clients s) \<and> c_sock_fd (clients s ! i) \<in> listen_fds
          \<and> c_sock_fd (clients s ! i) \<notin> opened (kern s)"
      let ?fd = "c_sock_fd (clients s ! i)"
      let ?s = "srv_remove_client s ?fd"
      from c read_from_client_closed [of s i]
      have "process_step s listen_fds i = Ok (?s, i)"
        by (intro process_step_closed) auto
      with 1(2) c have "f ?s listen_fds i = Some y" by simp
      from 1(1) [of ?s listen_fds i y] this c show False
        by (simp add: srv_remove_client_def sys_close_def)
    qed
  qed
  with assms show ?thesis by simp
qed simp

lemma pass_never_returns:
  assumes "i < length (clients s)" and "c_sock_fd (clients s ! i) \<in> listen_fds"
    and "read_from_client s i = (r, s1)" and "r = 1 \<or> r = -1"
  shows "process_client_data s listen_fds i = None"
proof -
  let ?fd = "c_sock_fd (clients s ! i)"
  let ?s = "srv_remove_client s1 ?fd"
  note fr = read_from_client_frame [OF assms(3,1)]
  from process_step_closed [OF assms(2,3,4,1)]
  have "process_client_data s listen_fds i = process_client_data ?s listen_fds i"
    using assms(1) by (subst process_client_data.simps) simp
  also have "\<dots> = None"
    by (rule process_client_data_spin)
       (use fr assms in \<open>simp_all add: srv_remove_client_def sys_close_def\<close>)
  finally show ?thesis .
qed

subsection \<open>Rounds of the loops\<close>

text \<open>
  What one round of each loop does, in the form the runs below are computed with.
\<close>

lemma const_upd: "(\<lambda>x. c)(a := c) = (\<lambda>x. c)"
  by (rule ext) simp

lemma write_buf_to_client_accept:
  assumes "fd \<in> opened k" "wq k fd = Accept n # ws" "len = int (length str)"
    and "len \<le> BUF_SIZE - 2" "length str + 2 \<le> n"
  shows "write_buf_to_client k fd str len
           = (0, k\<lparr>wq := (wq k)(fd := ws), sent := (sent k)(fd := sent k fd @ str @ CRLF)\<rparr>)"
proof -
  let ?bs = "str @ CRLF"
  let ?k = "k\<lparr>wq := (wq k)(fd := ws), sent := (sent k)(fd := sent k fd @ ?bs)\<rparr>"
  from assms have t: "(0::int) < len + 2" by simp
  have tk: "take (nat (len + 2 - 0)) (drop (nat 0) ?bs) = ?bs" using assms by simp
  have w: "sys_write k fd (take (nat (len + 2 - 0)) (drop (nat 0) ?bs)) = (len + 2, ?k)"
    unfolding tk using assms by (simp add: sys_write_def min_def)
  from assms have n: "len + 2 \<noteq> -1" "len + 2 \<noteq> 0" by simp_all
  have "write_loop k fd ?bs (len + 2) 0 = write_loop ?k fd ?bs (len + 2) (0 + (len + 2))"
    using write_loop_unfold [OF t w] n by simp
  also have "\<dots> = (0, ?k)" by (rule write_loop_done) simp
  finally show ?thesis using assms by (simp add: write_buf_to_client_def write_to_socket_def)
qed

lemma accept_block_join:
  assumes "s_sock_fd \<in> listen_fds" and "0 \<le> fd"
    and "- (2 ^ 31) \<le> client_id s + 1" and "client_id s + 1 < 2 ^ 31"
    and "k1 = (kern s)\<lparr>opened := insert fd (opened (kern s)), inq := (inq (kern s))(fd := rs),
                      wq := (wq (kern s))(fd := ws), sent := (sent (kern s))(fd := [])\<rparr>"
    and "write_buf_to_client k1 fd (dec (client_id s + 1)) (int (length (dec (client_id s + 1))))
           = (0, k2)"
  shows "accept_block s_sock_fd listen_fds (Connection fd rs ws) True s =
           Next (s\<lparr>clients := clients s @
                     [\<lparr>c_sock_fd = fd, c_state = 0, c_buf = replicate (nat BUF_SIZE) NUL,
                       c_inbuf = 0\<rparr>],
                   max_fd := max (max_fd s) fd, all_fds := insert fd (all_fds s),
                   client_id := client_id s + 1, client_count := client_count s + 1,
                   kern := k2\<rparr>)"
proof -
  let ?c = "\<lparr>c_sock_fd = fd, c_state = 0, c_buf = replicate (nat BUF_SIZE) NUL, c_inbuf = 0\<rparr>"
  define s1 where "s1 = s\<lparr>clients := clients s @ [?c], kern := k1\<rparr>"
  have a: "accept_connection s (Connection fd rs ws) True = (fd, s1)"
    using assms(2) by (simp add: accept_connection_def sys_accept_def s1_def assms(5))
  have i: "send_client_id (s1\<lparr>max_fd := max (max_fd s1) fd, all_fds := insert fd (all_fds s1)\<rparr>) fd
      = (0, s1\<lparr>max_fd := max (max_fd s1) fd, all_fds := insert fd (all_fds s1),
              client_id := client_id s + 1, client_count := client_count s + 1, kern := k2\<rparr>)"
    using assms(6) strnlen_dec [OF assms(3,4)]
    by (simp add: send_client_id_def Let_def s1_def)
  show ?thesis
    using assms(1,2) a i by (simp add: accept_block_def Let_def s1_def)
qed

lemma accept_block_idle:
  "s_sock_fd \<notin> listen_fds \<Longrightarrow> accept_block s_sock_fd listen_fds a m s = Next s"
  by (simp add: accept_block_def)

lemma server_iter_round:
  assumes "sel inp = Ready ready"
    and "accept_block s_sock_fd (ready \<inter> all_fds s) (acc inp) (mem inp) s = Next s1"
    and "server_fd \<notin> ready"
    and "process_client_data s1 (ready \<inter> all_fds s) 0 = Some (Ok s2)"
  shows "server_iter s_sock_fd server_fd inp s = Some (Ok (Next s2))"
  using assms by (simp add: server_iter_def Let_def control_block_def)

lemma server_iter_hangs:
  assumes "sel inp = Ready ready"
    and "accept_block s_sock_fd (ready \<inter> all_fds s) (acc inp) (mem inp) s = Next s1"
    and "server_fd \<notin> ready"
    and "process_client_data s1 (ready \<inter> all_fds s) 0 = None"
  shows "server_iter s_sock_fd server_fd inp s = None"
  using assms by (simp add: server_iter_def Let_def control_block_def)

lemma process_client_data_step:
  assumes "i < length (clients s)" and "process_step s listen_fds i = Ok (s', i')"
  shows "process_client_data s listen_fds i = process_client_data s' listen_fds i'"
  by (subst process_client_data.simps) (simp add: assms)

lemma process_client_data_end:
  "length (clients s) \<le> i \<Longrightarrow> process_client_data s listen_fds i = Some (Ok s)"
  by (subst process_client_data.simps) simp

lemma process_step_pass:
  "c_sock_fd (clients s ! i) \<notin> listen_fds \<Longrightarrow> process_step s listen_fds i = Ok (s, i + 1)"
  by (simp add: process_step_def)

lemma process_client_data_skip:
  assumes "\<forall>c \<in> set (drop i (clients s)). c_sock_fd c \<notin> listen_fds"
  shows "process_client_data s listen_fds i = Some (Ok s)"
  using assms
proof (induction "length (clients s) - i" arbitrary: i)
  case 0
  then show ?case by (simp add: process_client_data_end)
next
  case (Suc n)
  then have i: "i < length (clients s)" by simp
  then have d: "drop i (clients s) = clients s ! i # drop (i + 1) (clients s)"
    by (simp add: Cons_nth_drop_Suc)
  with Suc.prems have st: "process_step s listen_fds i = Ok (s, i + 1)"
    by (simp add: process_step_pass)
  from d Suc.prems have "\<forall>c \<in> set (drop (i + 1) (clients s)). c_sock_fd c \<notin> listen_fds"
    by simp
  with Suc.hyps(1) [of "i + 1"] Suc.hyps(2)
  have "process_client_data s listen_fds (i + 1) = Some (Ok s)" by simp
  with process_client_data_step [OF i st] show ?case by simp
qed

lemma process_step_frames:
  assumes "c_sock_fd (clients s ! i) \<in> listen_fds" and "read_from_client s i = (0, s1)"
    and "drain s1 i = Ok s2"
  shows "process_step s listen_fds i = Ok (s2, i + 1)"
  using assms by (simp add: process_step_def Let_def)

lemma read_from_client_chunk:
  assumes "c_sock_fd (clients s ! i) \<in> opened (kern s)"
    and "inq (kern s) (c_sock_fd (clients s ! i)) = Bytes bs # es" and "bs \<noteq> []"
    and "0 \<le> c_inbuf (clients s ! i)"
    and "c_inbuf (clients s ! i) + int (length bs) \<le> BUF_SIZE"
    and "length (c_buf (clients s ! i)) = nat BUF_SIZE"
    and "buf' = store (c_buf (clients s ! i)) (nat (c_inbuf (clients s ! i))) bs"
    and "inbuf' = c_inbuf (clients s ! i) + int (length bs)"
    and "crlf_end (take (nat inbuf') buf') = Some e" and "int e < BUF_SIZE"
  shows "read_from_client s i =
           (0, s\<lparr>clients := (clients s)[i := (clients s ! i)\<lparr>c_buf := buf', c_inbuf := inbuf'\<rparr>],
                 kern := (kern s)\<lparr>inq := (inq (kern s))(c_sock_fd (clients s ! i) := es)\<rparr>\<rparr>)"
proof -
  let ?c = "clients s ! i"
  let ?k = "(kern s)\<lparr>inq := (inq (kern s))(c_sock_fd ?c := es)\<rparr>"
  from assms(3,5) have lt: "c_inbuf ?c < BUF_SIZE" by (cases bs) auto
  from assms(4,5) have fits: "length bs \<le> nat (BUF_SIZE - c_inbuf ?c)" by linarith
  have sr: "sys_read (kern s) (c_sock_fd ?c) (nat (BUF_SIZE - c_inbuf ?c))
      = (int (length bs), bs, ?k)"
    using assms(1,2) fits by (simp add: sys_read_def)
  have lb: "length buf' = nat BUF_SIZE"
    unfolding assms(7) using assms(4,5,6) by (simp add: store_length)
  have v: "0 \<le> inbuf'" "inbuf' \<le> int (length buf')"
    using assms(4,5,8) lb by simp_all
  from find_network_newline_eq [OF v] assms(9)
  have f: "find_network_newline buf' inbuf' = int e" by (simp add: crlf_code_def)
  from assms(3) have nz: "int (length bs) \<noteq> 0" "int (length bs) \<noteq> -1" by simp_all
  have "read_from_socket (kern s) (c_sock_fd ?c) (c_buf ?c) (c_inbuf ?c) = (0, buf', inbuf', ?k)"
    using lt sr nz f assms(10) by (simp add: read_from_socket_def Let_def assms(7,8))
  then show ?thesis by (simp add: read_from_client_def Let_def)
qed

text \<open>
  Two kinds of iteration of the loop of \<^verbatim>\<open>server\<close>: one in which only the listening
  descriptor is ready and a connection is accepted and sent its id, and one in which
  neither the listening nor the control descriptor is ready.
\<close>

lemma join_round:
  assumes "reaches s_sock_fd server_fd k n s"
    and "s_sock_fd \<in> all_fds s" and "server_fd \<noteq> s_sock_fd" and "0 \<le> fd" and "fd \<noteq> s_sock_fd"
    and "\<forall>c \<in> set (clients s). c_sock_fd c \<noteq> s_sock_fd"
    and "- (2 ^ 31) \<le> client_id s + 1" and "client_id s + 1 < 2 ^ 31"
    and "k1 = (kern s)\<lparr>opened := insert fd (opened (kern s)), inq := (inq (kern s))(fd := rs),
                      wq := (wq (kern s))(fd := ws), sent := (sent (kern s))(fd := [])\<rparr>"
    and "write_buf_to_client k1 fd (dec (client_id s + 1)) (int (length (dec (client_id s + 1))))
           = (0, k2)"
    and "s' = s\<lparr>clients := clients s @
                     [\<lparr>c_sock_fd = fd, c_state = 0, c_buf = replicate (nat BUF_SIZE) NUL,
                       c_inbuf = 0\<rparr>],
                   max_fd := max (max_fd s) fd, all_fds := insert fd (all_fds s),
                   client_id := client_id s + 1, client_count := client_count s + 1,
                   kern := k2\<rparr>"
  shows "reaches s_sock_fd server_fd k (n + 1) s'"
proof -
  let ?inp = "\<lparr>sel = Ready {s_sock_fd}, acc = Connection fd rs ws, mem = True\<rparr>"
  have l: "{s_sock_fd} \<inter> all_fds s = {s_sock_fd}" using assms(2) by simp
  have a: "accept_block s_sock_fd ({s_sock_fd} \<inter> all_fds s) (acc ?inp) (mem ?inp) s = Next s'"
    unfolding l assms(11)
    using accept_block_join [OF _ assms(4,7,8,9,10), of s_sock_fd "{s_sock_fd}"] by simp
  have p: "process_client_data s' ({s_sock_fd} \<inter> all_fds s) 0 = Some (Ok s')"
    unfolding l by (rule process_client_data_skip) (use assms(5,6) in \<open>auto simp: assms(11)\<close>)
  have "server_iter s_sock_fd server_fd ?inp s = Some (Ok (Next s'))"
    by (rule server_iter_round [OF _ a _ p]) (use assms(3) in simp_all)
  moreover have "accepts s_sock_fd ?inp s"
    using assms(2,4) by (simp add: accepts_def)
  ultimately show ?thesis
    using reaches.round [OF assms(1), of ?inp "Next s'" s'] by simp
qed

lemma data_round:
  assumes "reaches s_sock_fd server_fd k n s"
    and "s_sock_fd \<notin> ready" and "server_fd \<notin> ready"
    and "process_client_data s (ready \<inter> all_fds s) 0 = Some (Ok s')"
  shows "reaches s_sock_fd server_fd k n s'"
proof -
  let ?inp = "\<lparr>sel = Ready ready, acc = AcceptFailed, mem = True\<rparr>"
  have a: "accept_block s_sock_fd (ready \<inter> all_fds s) (acc ?inp) (mem ?inp) s = Next s"
    by (rule accept_block_idle) (use assms(2) in simp)
  have "server_iter s_sock_fd server_fd ?inp s = Some (Ok (Next s'))"
    by (rule server_iter_round [OF _ a assms(3,4)]) simp
  moreover have "\<not> accepts s_sock_fd ?inp s"
    using assms(2) by (simp add: accepts_def)
  ultimately show ?thesis
    using reaches.round [OF assms(1), of ?inp "Next s'" s'] by simp
qed

text \<open>
  The kernel the runs below start in: the listening descriptor 3 and the control
  descriptor 4 are open, nothing is pending and nothing has been written.
\<close>

definition quiet_kernel :: kernel where
  "quiet_kernel = \<lparr>opened = {3, 4}, inq = (\<lambda>fd. []), wq = (\<lambda>fd. []),
                   sent = (\<lambda>fd. []), tty = []\<rparr>"

subsection \<open>The status query\<close>

text \<open>The buffer that holds the query of connection 1 and nothing else.\<close>

definition query_buf :: "char list" where
  "query_buf = ''1:'' @ connected_token @ CRLF @ replicate 117 NUL"

lemma query_frame:
  "crlf_end (take 14 query_buf) = Some 14"
  "take 14 query_buf = ''1:'' @ connected_token @ CRLF"
  "after_colon (take 12 (take 14 query_buf)) = Some connected_token"
  by (simp_all add: query_buf_def connected_token_def after_colon_def strchr_def)

lemma query_text:
  "frame_text (''1:'' @ connected_token @ CRLF) = ''1:'' @ connected_token @ CRLF"
  "cstr (''1:'' @ connected_token @ CRLF) = ''1:'' @ connected_token @ CRLF"
  by (simp_all add: frame_text_def cstr_def connected_token_def MAX_USER_MSG_def)

text \<open>
  A run in which the reply fails, and in which a query of 128 bytes follows: 115 bytes
  \<open>B\<close>, the colon, the token and CRLF.
\<close>

definition long_query :: "char list" where
  "long_query = replicate 115 CHR ''B'' @ '':'' @ connected_token @ CRLF"

definition long_query_text :: string where
  "long_query_text = replicate 115 CHR ''B'' @ '':'' @ connected_token @ [CR]"

definition asked :: server_state where
  "asked =
     \<lparr>clients = [\<lparr>c_sock_fd = 5, c_state = 0, c_buf = replicate 131 NUL, c_inbuf = 0\<rparr>],
      all_fds = {3, 4, 5}, max_fd = 5, client_count = 1, client_id = 1,
      kern = \<lparr>opened = {3, 4, 5},
              inq = (\<lambda>fd. [])(5 := [Bytes (''1:'' @ connected_token @ CRLF), Bytes long_query]),
              wq = (\<lambda>fd. [])(5 := [WFail]),
              sent = (\<lambda>fd. [])(5 := ''1'' @ CRLF), tty = []\<rparr>\<rparr>"

definition unanswered :: server_state where
  "unanswered =
     \<lparr>clients = [\<lparr>c_sock_fd = 5, c_state = 0, c_buf = query_buf, c_inbuf = 0\<rparr>],
      all_fds = {3, 4, 5}, max_fd = 5, client_count = 1, client_id = 1,
      kern = \<lparr>opened = {3, 4, 5}, inq = (\<lambda>fd. [])(5 := [Bytes long_query]), wq = (\<lambda>fd. []),
              sent = (\<lambda>fd. [])(5 := ''1'' @ CRLF), tty = []\<rparr>\<rparr>"

definition misread :: server_state where
  "misread =
     \<lparr>clients = [\<lparr>c_sock_fd = 5, c_state = 0, c_buf = long_query @ replicate 3 NUL,
                   c_inbuf = 0\<rparr>],
      all_fds = {3, 4, 5}, max_fd = 5, client_count = 1, client_id = 1,
      kern = \<lparr>opened = {3, 4, 5}, inq = (\<lambda>fd. []), wq = (\<lambda>fd. []),
              sent = (\<lambda>fd. [])(5 := ''1'' @ CRLF @ long_query_text @ CRLF),
              tty = [long_query_text]\<rparr>\<rparr>"

lemma asked_reached: "reaches 3 4 quiet_kernel 1 asked"
proof -
  let ?s = "server_init 3 4 quiet_kernel"
  let ?k1 = "(kern ?s)\<lparr>opened := insert 5 (opened (kern ?s)),
      inq := (inq (kern ?s))(5 := [Bytes (''1:'' @ connected_token @ CRLF), Bytes long_query]),
      wq := (wq (kern ?s))(5 := [Accept 3, WFail]), sent := (sent (kern ?s))(5 := [])\<rparr>"
  have w: "write_buf_to_client ?k1 5 (dec (client_id ?s + 1)) (int (length (dec (client_id ?s + 1))))
      = (0, ?k1\<lparr>wq := (wq ?k1)(5 := [WFail]), sent := (sent ?k1)(5 := sent ?k1 5 @ ''1'' @ CRLF)\<rparr>)"
    using write_buf_to_client_accept [of 5 ?k1 3 "[WFail]" 1 "''1''"]
    by (simp add: server_init_def dec_small BUF_SIZE_val)
  have "reaches 3 4 quiet_kernel (0 + 1) asked"
    by (rule join_round [OF reaches.start _ _ _ _ _ _ _ refl w])
       (simp_all add: server_init_def quiet_kernel_def asked_def BUF_SIZE_val insert_commute)
  then show ?thesis by simp
qed

lemma asked_read:
  "read_from_client asked 0 =
     (0, asked\<lparr>clients := (clients asked)[0 := (clients asked ! 0)\<lparr>c_buf := query_buf, c_inbuf := 14\<rparr>],
               kern := (kern asked)\<lparr>inq := (inq (kern asked))(5 := [Bytes long_query])\<rparr>\<rparr>)"
proof -
  have "read_from_client asked 0 =
     (0, asked\<lparr>clients := (clients asked)[0 := (clients asked ! 0)\<lparr>c_buf := query_buf, c_inbuf := 14\<rparr>],
               kern := (kern asked)\<lparr>inq := (inq (kern asked))
                         (c_sock_fd (clients asked ! 0) := [Bytes long_query])\<rparr>\<rparr>)"
    by (rule read_from_client_chunk [where bs = "''1:'' @ connected_token @ CRLF" and e = 14])
       (simp_all add: asked_def BUF_SIZE_val store_def query_buf_def connected_token_def)
  moreover have "c_sock_fd (clients asked ! 0) = 5" by (simp add: asked_def)
  ultimately show ?thesis by (simp only:)
qed

lemma asked_step: "process_step asked {5} 0 = Ok (unanswered, 1)"
proof -
  let ?f = "''1:'' @ connected_token @ CRLF"
  define s1 where "s1 = asked\<lparr>clients := (clients asked)
      [0 := (clients asked ! 0)\<lparr>c_buf := query_buf, c_inbuf := 14\<rparr>],
      kern := (kern asked)\<lparr>inq := (inq (kern asked))(5 := [Bytes long_query])\<rparr>\<rparr>"
  have l: "length ?f = 14" by (simp add: connected_token_def)
  have rd: "read_from_client asked 0 = (0, s1)" unfolding s1_def by (rule asked_read)
  let ?k' = "(kern s1)\<lparr>wq := (wq (kern s1))(5 := [])\<rparr>"
  have w: "write_buf_to_client (kern s1) (c_sock_fd (clients s1 ! 0)) (dec (client_count s1))
              (int (length (dec (client_count s1)))) = (1, ?k')"
    using write_buf_to_client_error [of 5 "kern s1" "[]" 1 "''1''"]
    by (simp add: s1_def asked_def dec_small BUF_SIZE_val)
  have h: "0 < length (clients s1)" "sane (clients s1 ! 0)"
    "crlf_end (take (nat (c_inbuf (clients s1 ! 0))) (c_buf (clients s1 ! 0))) = Some 14"
    "?f = take 14 (c_buf (clients s1 ! 0))"
    "2 \<le> length (frame_text ?f)"
    "after_colon (take (length (frame_text ?f) - 2) (cstr ?f)) = Some connected_token"
    "- (2 ^ 31) \<le> client_count s1" "client_count s1 < 2 ^ 31"
    unfolding query_text l using query_frame
    by (simp_all add: s1_def asked_def sane_def query_buf_def connected_token_def)
  from drain_query [OF h w]
  have "drain s1 0 = Ok (pop_frame s1 0 14\<lparr>kern := ?k'\<rparr>)" by simp
  moreover have "pop_frame s1 0 14\<lparr>kern := ?k'\<rparr> = unanswered"
    by (simp add: pop_frame_def s1_def asked_def unanswered_def memmove_front_def store_def
        const_upd)
  ultimately have d: "drain s1 0 = Ok unanswered" by simp
  have "process_step asked {5} 0 = Ok (unanswered, 0 + 1)"
    by (rule process_step_frames [OF _ rd d]) (simp add: asked_def)
  then show ?thesis by simp
qed

lemma asked_iter:
  "server_iter 3 4 \<lparr>sel = Ready {5}, acc = AcceptFailed, mem = True\<rparr> asked
     = Some (Ok (Next unanswered))"
proof -
  have l: "{5} \<inter> all_fds asked = {5}" by (simp add: asked_def)
  have "process_client_data unanswered {5} 1 = Some (Ok unanswered)"
    by (rule process_client_data_end) (simp add: unanswered_def)
  with process_client_data_step [OF _ asked_step]
  have p: "process_client_data asked ({5} \<inter> all_fds asked) 0 = Some (Ok unanswered)"
    unfolding l by (simp add: asked_def)
  show ?thesis
    by (rule server_iter_round [OF _ _ _ p]) (simp_all add: accept_block_idle)
qed

lemma long_query_facts:
  "length long_query = 128"
  "NUL \<notin> set long_query"
  "crlf_end long_query = Some 128"
  "take 127 long_query = long_query_text"
  "after_colon (take 125 long_query) \<noteq> Some connected_token"
proof -
  show "length long_query = 128" by (simp add: long_query_def connected_token_def)
  show "NUL \<notin> set long_query" by (simp add: long_query_def connected_token_def)
  show "take 127 long_query = long_query_text"
    by (simp add: long_query_def long_query_text_def connected_token_def)
  have "crlf_end (replicate n CHR ''B'' @ '':'' @ connected_token @ CRLF) = Some (n + 13)" for n
  proof (induction n)
    case 0
    show ?case by (simp add: connected_token_def)
  next
    case (Suc n)
    then show ?case by (cases n) (simp_all add: connected_token_def)
  qed
  from this [of 115] show "crlf_end long_query = Some 128" by (simp add: long_query_def)
  have "CHR '':'' \<notin> set (replicate 115 CHR ''B'')" by simp
  then have "dropWhile (\<lambda>x. x \<noteq> CHR '':'') (replicate 115 CHR ''B'' @ xs)
      = dropWhile (\<lambda>x. x \<noteq> CHR '':'') xs" for xs
    by (simp add: dropWhile_append3 dropWhile_append)
  then show "after_colon (take 125 long_query) \<noteq> Some connected_token"
    by (simp add: long_query_def after_colon_def strchr_def connected_token_def)
qed

lemma long_query_strings:
  "frame_text long_query = long_query_text"
  "cstr long_query = long_query"
proof -
  show c: "cstr long_query = long_query" by (rule cstr_plain) (rule long_query_facts)
  show "frame_text long_query = long_query_text"
    by (simp add: frame_text_def c MAX_USER_MSG_def long_query_facts)
qed

lemma unanswered_read:
  "read_from_client unanswered 0 =
     (0, unanswered\<lparr>clients := (clients unanswered)
                        [0 := (clients unanswered ! 0)\<lparr>c_buf := long_query @ replicate 3 NUL,
                                                       c_inbuf := 128\<rparr>],
               kern := (kern unanswered)\<lparr>inq := (inq (kern unanswered))(5 := [])\<rparr>\<rparr>)"
proof -
  have ne: "long_query \<noteq> []" by (simp add: long_query_def)
  have "read_from_client unanswered 0 =
     (0, unanswered\<lparr>clients := (clients unanswered)
                        [0 := (clients unanswered ! 0)\<lparr>c_buf := long_query @ replicate 3 NUL,
                                                       c_inbuf := 128\<rparr>],
               kern := (kern unanswered)\<lparr>inq := (inq (kern unanswered))
                         (c_sock_fd (clients unanswered ! 0) := [])\<rparr>\<rparr>)"
    by (rule read_from_client_chunk [where bs = long_query and e = 128])
       (simp_all add: unanswered_def BUF_SIZE_val store_def query_buf_def connected_token_def
          long_query_facts ne)
  moreover have "c_sock_fd (clients unanswered ! 0) = 5" by (simp add: unanswered_def)
  ultimately show ?thesis by (simp only:)
qed

lemma unanswered_step: "process_step unanswered {5} 0 = Ok (misread, 1)"
proof -
  let ?t = long_query_text
  define s1 where "s1 = unanswered\<lparr>clients := (clients unanswered)
      [0 := (clients unanswered ! 0)\<lparr>c_buf := long_query @ replicate 3 NUL, c_inbuf := 128\<rparr>],
      kern := (kern unanswered)\<lparr>inq := (inq (kern unanswered))(5 := [])\<rparr>\<rparr>"
  have rd: "read_from_client unanswered 0 = (0, s1)" unfolding s1_def by (rule unanswered_read)
  have lt: "length ?t = 127" by (simp add: long_query_text_def connected_token_def)
  have h: "0 < length (clients s1)" "sane (clients s1 ! 0)"
    "crlf_end (take (nat (c_inbuf (clients s1 ! 0))) (c_buf (clients s1 ! 0))) = Some 128"
    "long_query = take 128 (c_buf (clients s1 ! 0))"
    "2 \<le> length (frame_text long_query)"
    "after_colon (take (length (frame_text long_query) - 2) (cstr long_query))
       \<noteq> Some connected_token"
    unfolding long_query_strings lt using long_query_facts
    by (simp_all add: s1_def unanswered_def sane_def)
  have l127: "int (length ?t) = 127" using lt by simp
  note t = drain_plain [OF h, unfolded long_query_strings l127]
  let ?p = "pop_frame s1 0 128\<lparr>kern := display_message (kern s1) ?t\<rparr>"
  have d0: "deliver ?t 127 0 ?p
      = ?p\<lparr>kern := (kern ?p)\<lparr>sent := (sent (kern ?p))
           (c_sock_fd (clients ?p ! 0) :=
              sent (kern ?p) (c_sock_fd (clients ?p ! 0)) @ ?t @ CRLF)\<rparr>\<rparr>"
    by (rule deliver_healthy)
       (simp_all add: pop_frame_def s1_def unanswered_def display_message_def BUF_SIZE_val lt)
  have up: "[0..<length (clients s1)] = [0]" by (simp add: s1_def unanswered_def)
  have "fold (deliver ?t 127) [0..<length (clients s1)] ?p = deliver ?t 127 0 ?p"
    unfolding up by simp
  also have "\<dots> = misread"
    unfolding d0
    by (auto simp: pop_frame_def s1_def unanswered_def misread_def display_message_def
        memmove_front_def store_def fun_eq_iff long_query_facts)
  finally have f: "fold (deliver ?t 127) [0..<length (clients s1)] ?p = misread" .
  have "drain misread 0 = Ok misread"
    by (rule drain_empty) (simp_all add: misread_def)
  with t f have d: "drain s1 0 = Ok misread" by simp
  have "process_step unanswered {5} 0 = Ok (misread, 0 + 1)"
    by (rule process_step_frames [OF _ rd d]) (simp add: unanswered_def)
  then show ?thesis by simp
qed

lemma unanswered_iter:
  "server_iter 3 4 \<lparr>sel = Ready {5}, acc = AcceptFailed, mem = True\<rparr> unanswered
     = Some (Ok (Next misread))"
proof -
  have l: "{5} \<inter> all_fds unanswered = {5}" by (simp add: unanswered_def)
  have "process_client_data misread {5} 1 = Some (Ok misread)"
    by (rule process_client_data_end) (simp add: misread_def)
  with process_client_data_step [OF _ unanswered_step]
  have p: "process_client_data unanswered ({5} \<inter> all_fds unanswered) 0 = Some (Ok misread)"
    unfolding l by (simp add: unanswered_def)
  show ?thesis
    by (rule server_iter_round [OF _ _ _ p]) (simp_all add: accept_block_idle)
qed

text \<open>
  \<^bold>\<open>C7.\<close> A reply that fails does not remove the requester, and a query of 128
  bytes is not answered. A connection is accepted on descriptor 5 and sent its id. Its
  query arrives, and the write of the reply fails with \<open>-1\<close>: \<^verbatim>\<open>_server_commands\<close>
  returns 1, not 2, so after the iteration the connection, which has been sent nothing
  but its id, is still registered, watched, open and counted. Then its long query
  arrives. What follows the first colon of that frame is exactly the token, but
  \<^verbatim>\<open>data_len\<close> is the length of the copy cut to 127 bytes, so the store at
  \<^verbatim>\<open>msg[data_len - 2]\<close> does not remove the CRLF but cuts the token: the server sends
  no count, shows the first 127 bytes of the frame to the operator and broadcasts them.
\<close>

theorem failed_reply_keeps_connection:
  "reaches 3 4 quiet_kernel 1 asked
   \<and> inq (kern asked) 5
       = [Bytes (''1:'' @ connected_token @ CRLF),
          Bytes (replicate 115 CHR ''B'' @ '':'' @ connected_token @ CRLF)]
   \<and> wq (kern asked) 5 = [WFail]
   \<and> server_iter 3 4 \<lparr>sel = Ready {5}, acc = AcceptFailed, mem = True\<rparr> asked
       = Some (Ok (Next unanswered))
   \<and> sent (kern unanswered) 5 = ''1'' @ CRLF
   \<and> map c_sock_fd (clients unanswered) = [5]
   \<and> 5 \<in> all_fds unanswered \<and> 5 \<in> opened (kern unanswered)
   \<and> client_count unanswered = 1
   \<and> server_iter 3 4 \<lparr>sel = Ready {5}, acc = AcceptFailed, mem = True\<rparr> unanswered
       = Some (Ok (Next misread))
   \<and> tty (kern misread) = [replicate 115 CHR ''B'' @ '':'' @ connected_token @ [CR]]
   \<and> sent (kern misread) 5
       = ''1'' @ CRLF @ replicate 115 CHR ''B'' @ '':'' @ connected_token @ [CR] @ CRLF"
  using asked_reached asked_iter unanswered_iter
  by (simp add: asked_def unanswered_def misread_def long_query_def long_query_text_def)

subsection \<open>Broadcast\<close>

text \<open>The buffer that holds the frame \<open>hello\<close> and nothing else.\<close>

definition hello_buf :: "char list" where
  "hello_buf = ''hello'' @ CRLF @ replicate 124 NUL"

lemma hello_frame:
  "crlf_end (take 7 hello_buf) = Some 7"
  "take 7 hello_buf = ''hello'' @ CRLF"
  "after_colon (take 5 (take 7 hello_buf)) \<noteq> Some connected_token"
  by (simp_all add: hello_buf_def connected_token_def after_colon_def strchr_def)

lemma hello_text:
  "frame_text (''hello'' @ CRLF) = ''hello'' @ CRLF"
  "cstr (''hello'' @ CRLF) = ''hello'' @ CRLF"
  by (simp_all add: frame_text_def cstr_def MAX_USER_MSG_def)

text \<open>
  A run with three connections, accepted on the descriptors 5, 6 and 7 in this order and
  each sent its id; then \<open>hello\<close> arrives from 6. Every write succeeds.
\<close>

definition room1 :: server_state where
  "room1 =
     \<lparr>clients = [\<lparr>c_sock_fd = 5, c_state = 0, c_buf = replicate 131 NUL, c_inbuf = 0\<rparr>],
      all_fds = {3, 4, 5}, max_fd = 5, client_count = 1, client_id = 1,
      kern = \<lparr>opened = {3, 4, 5}, inq = (\<lambda>fd. []), wq = (\<lambda>fd. []),
              sent = (\<lambda>fd. [])(5 := ''1'' @ CRLF), tty = []\<rparr>\<rparr>"

definition room2 :: server_state where
  "room2 =
     \<lparr>clients = [\<lparr>c_sock_fd = 5, c_state = 0, c_buf = replicate 131 NUL, c_inbuf = 0\<rparr>,
                 \<lparr>c_sock_fd = 6, c_state = 0, c_buf = replicate 131 NUL, c_inbuf = 0\<rparr>],
      all_fds = {3, 4, 5, 6}, max_fd = 6, client_count = 2, client_id = 2,
      kern = \<lparr>opened = {3, 4, 5, 6},
              inq = (\<lambda>fd. [])(6 := [Bytes (''hello'' @ CRLF)]),
              wq = (\<lambda>fd. []),
              sent = (\<lambda>fd. [])(5 := ''1'' @ CRLF, 6 := ''2'' @ CRLF), tty = []\<rparr>\<rparr>"

definition room :: server_state where
  "room =
     \<lparr>clients = [\<lparr>c_sock_fd = 5, c_state = 0, c_buf = replicate 131 NUL, c_inbuf = 0\<rparr>,
                 \<lparr>c_sock_fd = 6, c_state = 0, c_buf = replicate 131 NUL, c_inbuf = 0\<rparr>,
                 \<lparr>c_sock_fd = 7, c_state = 0, c_buf = replicate 131 NUL, c_inbuf = 0\<rparr>],
      all_fds = {3, 4, 5, 6, 7}, max_fd = 7, client_count = 3, client_id = 3,
      kern = \<lparr>opened = {3, 4, 5, 6, 7},
              inq = (\<lambda>fd. [])(6 := [Bytes (''hello'' @ CRLF)]),
              wq = (\<lambda>fd. []),
              sent = (\<lambda>fd. [])(5 := ''1'' @ CRLF, 6 := ''2'' @ CRLF, 7 := ''3'' @ CRLF),
              tty = []\<rparr>\<rparr>"

definition room_hello :: server_state where
  "room_hello =
     \<lparr>clients = [\<lparr>c_sock_fd = 5, c_state = 0, c_buf = replicate 131 NUL, c_inbuf = 0\<rparr>,
                 \<lparr>c_sock_fd = 6, c_state = 0, c_buf = hello_buf, c_inbuf = 0\<rparr>,
                 \<lparr>c_sock_fd = 7, c_state = 0, c_buf = replicate 131 NUL, c_inbuf = 0\<rparr>],
      all_fds = {3, 4, 5, 6, 7}, max_fd = 7, client_count = 3, client_id = 3,
      kern = \<lparr>opened = {3, 4, 5, 6, 7},
              inq = (\<lambda>fd. []),
              wq = (\<lambda>fd. []),
              sent = (\<lambda>fd. [])(5 := ''1'' @ CRLF, 6 := ''2'' @ CRLF @ ''hello'' @ CRLF @ CRLF,
                                7 := ''3'' @ CRLF @ ''hello'' @ CRLF @ CRLF),
              tty = [''hello'' @ CRLF]\<rparr>\<rparr>"

lemma room1_reached: "reaches 3 4 quiet_kernel 1 room1"
proof -
  let ?s = "server_init 3 4 quiet_kernel"
  let ?k1 = "(kern ?s)\<lparr>opened := insert 5 (opened (kern ?s)), inq := (inq (kern ?s))(5 := []),
      wq := (wq (kern ?s))(5 := []), sent := (sent (kern ?s))(5 := [])\<rparr>"
  have w: "write_buf_to_client ?k1 5 (dec (client_id ?s + 1)) (int (length (dec (client_id ?s + 1))))
      = (0, ?k1\<lparr>sent := (sent ?k1)(5 := sent ?k1 5 @ ''1'' @ CRLF)\<rparr>)"
    using write_buf_to_client_healthy [of 5 ?k1 1 "''1''"]
    by (simp add: server_init_def dec_small BUF_SIZE_val)
  have "reaches 3 4 quiet_kernel (0 + 1) room1"
    by (rule join_round [OF reaches.start _ _ _ _ _ _ _ refl w])
       (simp_all add: server_init_def quiet_kernel_def room1_def BUF_SIZE_val insert_commute
          const_upd)
  then show ?thesis by simp
qed

lemma room2_reached: "reaches 3 4 quiet_kernel 2 room2"
proof -
  let ?s = room1
  let ?k1 = "(kern ?s)\<lparr>opened := insert 6 (opened (kern ?s)),
      inq := (inq (kern ?s))(6 := [Bytes (''hello'' @ CRLF)]),
      wq := (wq (kern ?s))(6 := []), sent := (sent (kern ?s))(6 := [])\<rparr>"
  have w: "write_buf_to_client ?k1 6 (dec (client_id ?s + 1)) (int (length (dec (client_id ?s + 1))))
      = (0, ?k1\<lparr>sent := (sent ?k1)(6 := sent ?k1 6 @ ''2'' @ CRLF)\<rparr>)"
    using write_buf_to_client_healthy [of 6 ?k1 1 "''2''"]
    by (simp add: room1_def dec_small BUF_SIZE_val)
  have e: "(1::nat) + 1 = 2" by simp
  have "reaches 3 4 quiet_kernel (1 + 1) room2"
    by (rule join_round [OF room1_reached _ _ _ _ _ _ _ refl w])
       (simp_all add: room1_def room2_def BUF_SIZE_val insert_commute const_upd)
  then show ?thesis unfolding e .
qed

lemma room_reached: "reaches 3 4 quiet_kernel 3 room"
proof -
  let ?s = room2
  let ?k1 = "(kern ?s)\<lparr>opened := insert 7 (opened (kern ?s)), inq := (inq (kern ?s))(7 := []),
      wq := (wq (kern ?s))(7 := []), sent := (sent (kern ?s))(7 := [])\<rparr>"
  have w: "write_buf_to_client ?k1 7 (dec (client_id ?s + 1)) (int (length (dec (client_id ?s + 1))))
      = (0, ?k1\<lparr>sent := (sent ?k1)(7 := sent ?k1 7 @ ''3'' @ CRLF)\<rparr>)"
    using write_buf_to_client_healthy [of 7 ?k1 1 "''3''"]
    by (simp add: room2_def dec_small BUF_SIZE_val)
  have e: "(2::nat) + 1 = 3" by simp
  have "reaches 3 4 quiet_kernel (2 + 1) room"
    by (rule join_round [OF room2_reached _ _ _ _ _ _ _ refl w])
       (auto simp: room2_def room_def BUF_SIZE_val fun_eq_iff)
  then show ?thesis unfolding e .
qed

lemma room_read:
  "read_from_client room 1 =
     (0, room\<lparr>clients := (clients room)[1 := (clients room ! 1)\<lparr>c_buf := hello_buf, c_inbuf := 7\<rparr>],
              kern := (kern room)\<lparr>inq := (inq (kern room))(6 := [])\<rparr>\<rparr>)"
proof -
  have "read_from_client room 1 =
     (0, room\<lparr>clients := (clients room)[1 := (clients room ! 1)\<lparr>c_buf := hello_buf, c_inbuf := 7\<rparr>],
              kern := (kern room)\<lparr>inq := (inq (kern room))
                        (c_sock_fd (clients room ! 1) := [])\<rparr>\<rparr>)"
    by (rule read_from_client_chunk [where bs = "''hello'' @ CRLF" and e = 7])
       (simp_all add: room_def BUF_SIZE_val hello_frame store_def hello_buf_def)
  moreover have "c_sock_fd (clients room ! 1) = 6" by (simp add: room_def)
  ultimately show ?thesis by (simp only:)
qed

lemma room_step: "process_step room {6} 1 = Ok (room_hello, 2)"
proof -
  let ?f = "''hello'' @ CRLF"
  define s1 where "s1 = room\<lparr>clients := (clients room)
      [1 := (clients room ! 1)\<lparr>c_buf := hello_buf, c_inbuf := 7\<rparr>],
      kern := (kern room)\<lparr>inq := (inq (kern room))(6 := [])\<rparr>\<rparr>"
  have rd: "read_from_client room 1 = (0, s1)" unfolding s1_def by (rule room_read)
  have h: "1 < length (clients s1)" "sane (clients s1 ! 1)"
    "crlf_end (take (nat (c_inbuf (clients s1 ! 1))) (c_buf (clients s1 ! 1))) = Some 7"
    "?f = take 7 (c_buf (clients s1 ! 1))"
    "2 \<le> length (frame_text ?f)"
    "after_colon (take (length (frame_text ?f) - 2) (cstr ?f)) \<noteq> Some connected_token"
    unfolding hello_text using hello_frame
    by (simp_all add: s1_def room_def sane_def hello_buf_def)
  have l7: "int (length ?f) = 7" by simp
  note t = drain_plain [OF h, unfolded hello_text l7]
  let ?p = "pop_frame s1 1 7\<lparr>kern := display_message (kern s1) ?f\<rparr>"
  have d1: "deliver ?f 7 1 ?p
      = ?p\<lparr>kern := (kern ?p)\<lparr>sent := (sent (kern ?p))
           (c_sock_fd (clients ?p ! 1) :=
              sent (kern ?p) (c_sock_fd (clients ?p ! 1)) @ ?f @ CRLF)\<rparr>\<rparr>"
    by (rule deliver_healthy)
       (simp_all add: pop_frame_def s1_def room_def display_message_def BUF_SIZE_val)
  let ?q = "?p\<lparr>kern := (kern ?p)\<lparr>sent := (sent (kern ?p))
           (c_sock_fd (clients ?p ! 1) :=
              sent (kern ?p) (c_sock_fd (clients ?p ! 1)) @ ?f @ CRLF)\<rparr>\<rparr>"
  have d2: "deliver ?f 7 2 ?q
      = ?q\<lparr>kern := (kern ?q)\<lparr>sent := (sent (kern ?q))
           (c_sock_fd (clients ?q ! 2) :=
              sent (kern ?q) (c_sock_fd (clients ?q ! 2)) @ ?f @ CRLF)\<rparr>\<rparr>"
    by (rule deliver_healthy)
       (simp_all add: pop_frame_def s1_def room_def display_message_def BUF_SIZE_val)
  have up: "[1..<length (clients s1)] = [1, 2]" by (simp add: s1_def room_def upt_rec)
  have "fold (deliver ?f 7) [1..<length (clients s1)] ?p
      = ?q\<lparr>kern := (kern ?q)\<lparr>sent := (sent (kern ?q))
           (c_sock_fd (clients ?q ! 2) :=
              sent (kern ?q) (c_sock_fd (clients ?q ! 2)) @ ?f @ CRLF)\<rparr>\<rparr>"
    unfolding up using d1 d2 by simp
  also have "\<dots> = room_hello"
    by (auto simp: pop_frame_def s1_def room_def room_hello_def display_message_def
        memmove_front_def store_def fun_eq_iff)
  finally have f: "fold (deliver ?f 7) [1..<length (clients s1)] ?p = room_hello" .
  have "drain room_hello 1 = Ok room_hello"
    by (rule drain_empty) (simp_all add: room_hello_def)
  with t f have d: "drain s1 1 = Ok room_hello" by simp
  have "process_step room {6} 1 = Ok (room_hello, 1 + 1)"
    by (rule process_step_frames [OF _ rd d]) (simp add: room_def)
  then show ?thesis by simp
qed

lemma room_pass: "process_client_data room {6} 0 = Some (Ok room_hello)"
proof -
  have "process_client_data room {6} 0 = process_client_data room {6} (0 + 1)"
    by (rule process_client_data_step [OF _ process_step_pass]) (simp_all add: room_def)
  also have "\<dots> = process_client_data room_hello {6} 2"
    using process_client_data_step [OF _ room_step] by (simp add: room_def)
  also have "\<dots> = process_client_data room_hello {6} (2 + 1)"
    by (rule process_client_data_step [OF _ process_step_pass]) (simp_all add: room_hello_def)
  also have "\<dots> = Some (Ok room_hello)"
    by (rule process_client_data_end) (simp add: room_hello_def)
  finally show ?thesis .
qed

lemma room_iter:
  "server_iter 3 4 \<lparr>sel = Ready {6}, acc = AcceptFailed, mem = True\<rparr> room
     = Some (Ok (Next room_hello))"
proof -
  have l: "{6} \<inter> all_fds room = {6}" by (simp add: room_def)
  show ?thesis
    by (rule server_iter_round [of _ "{6}" _ _ room])
       (simp_all add: accept_block_idle l room_pass)
qed

text \<open>
  \<^bold>\<open>C1.\<close> The broadcast does not reach every registered connection. In the
  reachable state \<open>room\<close> the registry holds the connections 5, 6 and 7, all watched
  and open, and the frame \<open>hello\<close> from 6 is pending. The iteration that serves it
  shows the frame to the operator and starts the broadcast at the sender's node, the
  cursor of the pass, not at the head of the registry: 6 and 7 are sent the frame (and
  one more CRLF), and 5, which is registered before the sender, is sent nothing.
\<close>

theorem broadcast_misses_earlier_connection:
  "reaches 3 4 quiet_kernel 3 room
   \<and> map c_sock_fd (clients room) = [5, 6, 7]
   \<and> {5, 6, 7} \<subseteq> all_fds room \<and> {5, 6, 7} \<subseteq> opened (kern room)
   \<and> inq (kern room) 6 = [Bytes (''hello'' @ CRLF)]
   \<and> wq (kern room) 5 = [] \<and> wq (kern room) 6 = [] \<and> wq (kern room) 7 = []
   \<and> server_iter 3 4 \<lparr>sel = Ready {6}, acc = AcceptFailed, mem = True\<rparr> room
       = Some (Ok (Next room_hello))
   \<and> tty (kern room_hello) = [''hello'' @ CRLF]
   \<and> sent (kern room_hello) 5 = sent (kern room) 5
   \<and> sent (kern room_hello) 6 = sent (kern room) 6 @ ''hello'' @ CRLF @ CRLF
   \<and> sent (kern room_hello) 7 = sent (kern room) 7 @ ''hello'' @ CRLF @ CRLF
   \<and> map c_sock_fd (clients room_hello) = [5, 6, 7]
   \<and> 5 \<in> all_fds room_hello \<and> 5 \<in> opened (kern room_hello)"
  using room_reached room_iter
  by (simp add: room_def room_hello_def)

subsection \<open>A peer that closes\<close>

lemma peer_close_keeps_buffer:
  assumes "read_from_client s i = (1, s1)"
  shows "clients s1 = clients s"
proof -
  let ?c = "clients s ! i"
  obtain r b n k where
    rd: "read_from_socket (kern s) (c_sock_fd ?c) (c_buf ?c) (c_inbuf ?c) = (r, b, n, k)"
    by (cases "read_from_socket (kern s) (c_sock_fd ?c) (c_buf ?c) (c_inbuf ?c)") auto
  with assms have r: "r = 1" and s1: "clients s1 = (clients s)[i := ?c\<lparr>c_buf := b, c_inbuf := n\<rparr>]"
    by (auto simp: read_from_client_def Let_def)
  obtain m bs k1 where sr: "sys_read (kern s) (c_sock_fd ?c) (nat (BUF_SIZE - c_inbuf ?c)) = (m, bs, k1)"
    by (cases "sys_read (kern s) (c_sock_fd ?c) (nat (BUF_SIZE - c_inbuf ?c))") auto
  from sys_read_cases [OF sr] rd r sr have "b = c_buf ?c \<and> n = c_inbuf ?c"
    by (auto simp: read_from_socket_def Let_def store_def split: if_splits)
  with s1 show ?thesis by simp
qed


text \<open>
  \<^bold>\<open>C3\<close>, in the form the code satisfies. When the read for a ready connection
  returns 1 (the peer has closed) or \<open>-1\<close>, the server extracts no frame. The round
  runs the removal routine
  right away: the descriptor leaves the watched set and is closed, the live count goes
  down by one, and the cursor stays on the connection. Nothing is shown to the operator
  and nothing is sent, and the count of bytes buffered for the connection does not go
  down: no frame is taken out of the buffer. When the peer has closed, the registry with
  its buffers is left exactly as it was, complete frames included.
\<close>

theorem peer_closed_no_drain:
  assumes "i < length (clients s)" and "c_sock_fd (clients s ! i) \<in> listen_fds"
    and "read_from_client s i = (r, s1)" and "r = 1 \<or> r = -1"
    and "s' = srv_remove_client s1 (c_sock_fd (clients s ! i))"
  shows "process_step s listen_fds i = Ok (s', i)
       \<and> tty (kern s') = tty (kern s) \<and> sent (kern s') = sent (kern s)
       \<and> length (clients s') = length (clients s)
       \<and> c_inbuf (clients s ! i) \<le> c_inbuf (clients s' ! i)
       \<and> (r = 1 \<longrightarrow> clients s' = clients s)
       \<and> all_fds s' = all_fds s - {c_sock_fd (clients s ! i)}
       \<and> client_count s' = client_count s - 1
       \<and> opened (kern s') = opened (kern s) - {c_sock_fd (clients s ! i)}"
proof -
  have "clients s1 = clients s" if "r = 1"
    using assms(3) that peer_close_keeps_buffer by blast
  then show ?thesis
    using process_step_closed [OF assms(2,3,4,1)] read_from_client_frame [OF assms(3,1)]
    by (simp add: assms(5) srv_remove_client_def sys_close_def)
qed

text \<open>A run in which a complete frame is buffered when the peer closes.\<close>

definition two_frames :: "char list" where
  "two_frames = ''1:'' @ connected_token @ CRLF @ ''hello'' @ CRLF"

definition joined :: server_state where
  "joined =
     \<lparr>clients = [\<lparr>c_sock_fd = 5, c_state = 0, c_buf = replicate 131 NUL, c_inbuf = 0\<rparr>],
      all_fds = {3, 4, 5}, max_fd = 5, client_count = 1, client_id = 1,
      kern = \<lparr>opened = {3, 4, 5}, inq = (\<lambda>fd. [])(5 := [Bytes two_frames]), wq = (\<lambda>fd. []),
              sent = (\<lambda>fd. [])(5 := ''1'' @ CRLF), tty = []\<rparr>\<rparr>"

definition stale_buf :: "char list" where
  "stale_buf = ''hello'' @ CRLF @ ''ected'' @ CRLF @ ''hello'' @ CRLF @ replicate 110 NUL"

definition closing :: server_state where
  "closing =
     \<lparr>clients = [\<lparr>c_sock_fd = 5, c_state = 0, c_buf = stale_buf, c_inbuf = 7\<rparr>],
      all_fds = {3, 4, 5}, max_fd = 5, client_count = 1, client_id = 1,
      kern = \<lparr>opened = {3, 4, 5}, inq = (\<lambda>fd. []), wq = (\<lambda>fd. []),
              sent = (\<lambda>fd. [])(5 := ''1'' @ CRLF @ ''1'' @ CRLF), tty = []\<rparr>\<rparr>"

definition closed_unread :: server_state where
  "closed_unread =
     \<lparr>clients = [\<lparr>c_sock_fd = 5, c_state = 0, c_buf = stale_buf, c_inbuf = 7\<rparr>],
      all_fds = {3, 4}, max_fd = 5, client_count = 0, client_id = 1,
      kern = \<lparr>opened = {3, 4}, inq = (\<lambda>fd. []), wq = (\<lambda>fd. []),
              sent = (\<lambda>fd. [])(5 := ''1'' @ CRLF @ ''1'' @ CRLF), tty = []\<rparr>\<rparr>"

lemma joined_reached: "reaches 3 4 quiet_kernel 1 joined"
proof -
  let ?s = "server_init 3 4 quiet_kernel"
  let ?k1 = "(kern ?s)\<lparr>opened := insert 5 (opened (kern ?s)),
      inq := (inq (kern ?s))(5 := [Bytes two_frames]),
      wq := (wq (kern ?s))(5 := []), sent := (sent (kern ?s))(5 := [])\<rparr>"
  have w: "write_buf_to_client ?k1 5 (dec (client_id ?s + 1)) (int (length (dec (client_id ?s + 1))))
      = (0, ?k1\<lparr>sent := (sent ?k1)(5 := sent ?k1 5 @ ''1'' @ CRLF)\<rparr>)"
    using write_buf_to_client_healthy [of 5 ?k1 1 "''1''"]
    by (simp add: server_init_def dec_small BUF_SIZE_val)
  have "reaches 3 4 quiet_kernel (0 + 1) joined"
    by (rule join_round [OF reaches.start _ _ _ _ _ _ _ refl w])
       (simp_all add: server_init_def quiet_kernel_def joined_def BUF_SIZE_val insert_commute
          const_upd)
  then show ?thesis by simp
qed

lemma joined_read:
  "read_from_client joined 0 =
     (0, joined\<lparr>clients := (clients joined)
                    [0 := (clients joined ! 0)\<lparr>c_buf := two_frames @ replicate 110 NUL,
                                               c_inbuf := 21\<rparr>],
                kern := (kern joined)\<lparr>inq := (inq (kern joined))(5 := [])\<rparr>\<rparr>)"
proof -
  have l: "length two_frames = 21" by (simp add: two_frames_def connected_token_def)
  have c: "crlf_end two_frames = Some 14" by (simp add: two_frames_def connected_token_def)
  have ne: "two_frames \<noteq> []" by (simp add: two_frames_def)
  have "read_from_client joined 0 =
     (0, joined\<lparr>clients := (clients joined)
                    [0 := (clients joined ! 0)\<lparr>c_buf := two_frames @ replicate 110 NUL,
                                               c_inbuf := 21\<rparr>],
                kern := (kern joined)\<lparr>inq := (inq (kern joined))
                          (c_sock_fd (clients joined ! 0) := [])\<rparr>\<rparr>)"
    by (rule read_from_client_chunk [where bs = two_frames and e = 14])
       (simp_all add: joined_def BUF_SIZE_val store_def l c ne)
  moreover have "c_sock_fd (clients joined ! 0) = 5" by (simp add: joined_def)
  ultimately show ?thesis by (simp only:)
qed

lemma joined_step: "process_step joined {5} 0 = Ok (closing, 1)"
proof -
  let ?f = "''1:'' @ connected_token @ CRLF"
  define s1 where "s1 = joined\<lparr>clients := (clients joined)
      [0 := (clients joined ! 0)\<lparr>c_buf := two_frames @ replicate 110 NUL, c_inbuf := 21\<rparr>],
      kern := (kern joined)\<lparr>inq := (inq (kern joined))(5 := [])\<rparr>\<rparr>"
  have rd: "read_from_client joined 0 = (0, s1)" unfolding s1_def by (rule joined_read)
  let ?k' = "(kern s1)\<lparr>sent := (sent (kern s1))(5 := sent (kern s1) 5 @ ''1'' @ CRLF)\<rparr>"
  have w: "write_buf_to_client (kern s1) (c_sock_fd (clients s1 ! 0)) (dec (client_count s1))
              (int (length (dec (client_count s1)))) = (0, ?k')"
    using write_buf_to_client_healthy [of 5 "kern s1" 1 "''1''"]
    by (simp add: s1_def joined_def dec_small BUF_SIZE_val)
  have l: "length ?f = 14" by (simp add: connected_token_def)
  have h: "0 < length (clients s1)" "sane (clients s1 ! 0)"
    "crlf_end (take (nat (c_inbuf (clients s1 ! 0))) (c_buf (clients s1 ! 0))) = Some 14"
    "?f = take 14 (c_buf (clients s1 ! 0))"
    "2 \<le> length (frame_text ?f)"
    "after_colon (take (length (frame_text ?f) - 2) (cstr ?f)) = Some connected_token"
    "- (2 ^ 31) \<le> client_count s1" "client_count s1 < 2 ^ 31"
    unfolding query_text l
    by (simp_all add: s1_def joined_def sane_def two_frames_def connected_token_def
        after_colon_def strchr_def)
  from drain_query [OF h w]
  have "drain s1 0 = Ok (pop_frame s1 0 14\<lparr>kern := ?k'\<rparr>)" by simp
  moreover have "pop_frame s1 0 14\<lparr>kern := ?k'\<rparr> = closing"
    by (simp add: pop_frame_def s1_def joined_def closing_def memmove_front_def store_def
        two_frames_def connected_token_def stale_buf_def const_upd)
  ultimately have d: "drain s1 0 = Ok closing" by simp
  have "process_step joined {5} 0 = Ok (closing, 0 + 1)"
    by (rule process_step_frames [OF _ rd d]) (simp add: joined_def)
  then show ?thesis by simp
qed

lemma closing_reached: "reaches 3 4 quiet_kernel 1 closing"
proof -
  have l: "{5} \<inter> all_fds joined = {5}" by (simp add: joined_def)
  have "process_client_data closing {5} 1 = Some (Ok closing)"
    by (rule process_client_data_end) (simp add: closing_def)
  with process_client_data_step [OF _ joined_step]
  have p: "process_client_data joined ({5} \<inter> all_fds joined) 0 = Some (Ok closing)"
    unfolding l by (simp add: joined_def)
  show ?thesis by (rule data_round [OF joined_reached _ _ p]) simp_all
qed

lemma closing_frame:
  "crlf_end (take 7 stale_buf) = Some 7"
  "take 7 stale_buf = ''hello'' @ CRLF"
  by (simp_all add: stale_buf_def)

lemma closing_read: "read_from_client closing 0 = (1, closing)"
  by (simp add: read_from_client_def closing_def read_from_socket_def sys_read_def
      BUF_SIZE_val store_def stale_buf_def Let_def)

lemma closing_removed: "srv_remove_client closing 5 = closed_unread"
  by (simp add: srv_remove_client_def closing_def closed_unread_def sys_close_def)
     (simp add: insert_Diff_if)

lemma closing_step: "process_step closing {5} 0 = Ok (closed_unread, 0)"
proof -
  have "process_step closing {5} 0
      = Ok (srv_remove_client closing (c_sock_fd (clients closing ! 0)), 0)"
    by (rule process_step_closed [OF _ closing_read]) (simp_all add: closing_def)
  moreover have "c_sock_fd (clients closing ! 0) = 5" by (simp add: closing_def)
  ultimately show ?thesis using closing_removed by simp
qed

text \<open>
  The theorem at the state \<open>closing\<close>: the peer of connection 5 has closed, and the
  frame \<open>hello\<close> is still in its buffer.
\<close>

theorem peer_closed_no_drain_witness:
  "process_step closing {5} 0 = Ok (closed_unread, 0)
   \<and> tty (kern closed_unread) = [] \<and> sent (kern closed_unread) 5 = sent (kern closing) 5
   \<and> client_count closed_unread = client_count closing - 1"
proof -
  have h: "0 < length (clients closing)" "c_sock_fd (clients closing ! 0) \<in> {5}"
    "(1::int) = 1 \<or> (1::int) = -1"
    by (simp_all add: closing_def)
  have "closed_unread = srv_remove_client closing (c_sock_fd (clients closing ! 0))"
    using closing_removed by (simp add: closing_def)
  from peer_closed_no_drain [OF h(1,2) closing_read h(3) this]
  show ?thesis by (simp add: closing_def closed_unread_def)
qed

text \<open>
  A frame that is dropped. A connection is accepted on descriptor 5 and sent its id;
  one chunk brings a status query and the frame \<open>hello\<close>. The iteration that reads it
  answers the query and, a query ending the extraction, leaves \<open>hello\<close> in the
  buffer, a complete frame. Then the peer closes: the read returns 1, and the connection
  is removed with \<open>hello\<close> neither shown to the operator nor sent to anyone; the
  connection has been sent its id and the reply, nothing else.
\<close>

theorem buffered_frame_dropped:
  "reaches 3 4 quiet_kernel 1 closing
   \<and> crlf_end (take (nat (c_inbuf (clients closing ! 0))) (c_buf (clients closing ! 0))) = Some 7
   \<and> take 7 (c_buf (clients closing ! 0)) = ''hello'' @ CRLF
   \<and> read_from_client closing 0 = (1, closing)
   \<and> process_step closing {5} 0 = Ok (closed_unread, 0)
   \<and> tty (kern closed_unread) = [] \<and> sent (kern closed_unread) 5 = ''1'' @ CRLF @ ''1'' @ CRLF
   \<and> c_inbuf (clients closed_unread ! 0) = 7
   \<and> 5 \<notin> all_fds closed_unread \<and> 5 \<notin> opened (kern closed_unread)"
  using closing_frame closing_read closing_reached closing_step
  by (simp add: closing_def closed_unread_def)

text \<open>
  \<^bold>\<open>C4.\<close> The traversal does not tolerate a removal. In the reachable state
  \<open>closing\<close> the peer of the only connection has closed. The pass over the registry
  runs the removal routine, which leaves the node in the list, and does not move the
  cursor; every further round reads the closed descriptor, takes the failure for a
  disconnect and runs the removal routine again. The pass never returns, and so neither
  does the iteration of the server loop it belongs to.
\<close>

theorem pass_spins_on_disconnect:
  "reaches 3 4 quiet_kernel 1 closing
   \<and> map c_sock_fd (clients closing) = [5] \<and> inq (kern closing) 5 = []
   \<and> process_client_data closing {5} 0 = None
   \<and> server_iter 3 4 \<lparr>sel = Ready {5}, acc = AcceptFailed, mem = True\<rparr> closing = None"
proof -
  have p: "process_client_data closing {5} 0 = None"
    by (rule pass_never_returns [OF _ _ closing_read]) (simp_all add: closing_def)
  have l: "{5} \<inter> all_fds closing = {5}" by (simp add: closing_def)
  have "server_iter 3 4 \<lparr>sel = Ready {5}, acc = AcceptFailed, mem = True\<rparr> closing = None"
    by (rule server_iter_hangs [of _ "{5}" _ _ closing])
       (simp_all add: accept_block_idle l p)
  with p closing_reached show ?thesis by (simp add: closing_def)
qed

subsection \<open>The registry and the watched set\<close>

text \<open>
  A run in which the id cannot be delivered: the first connection is accepted on
  descriptor 5, and the write of its id is a zero-length write, so the server runs the
  removal routine on it.
\<close>

definition first_round :: input where
  "first_round = \<lparr>sel = Ready {3}, acc = Connection 5 [] [Accept 0], mem = True\<rparr>"

definition orphaned :: server_state where
  "orphaned =
     \<lparr>clients = [\<lparr>c_sock_fd = 5, c_state = 0, c_buf = replicate 131 NUL, c_inbuf = 0\<rparr>],
      all_fds = {3, 4}, max_fd = 5, client_count = 0, client_id = 1,
      kern = \<lparr>opened = {3, 4}, inq = (\<lambda>fd. []), wq = (\<lambda>fd. []),
              sent = (\<lambda>fd. []), tty = []\<rparr>\<rparr>"

lemma first_round_iter:
  "server_iter 3 4 first_round (server_init 3 4 quiet_kernel) = Some (Ok (Again orphaned))"
proof -
  let ?k = "\<lparr>opened = {3, 4, 5}, inq = (\<lambda>fd. []), wq = (\<lambda>fd. [])(5 := [Accept 0]),
              sent = (\<lambda>fd. []), tty = []\<rparr>"
  let ?c = "\<lparr>c_sock_fd = 5, c_state = 0, c_buf = replicate 131 NUL, c_inbuf = 0\<rparr>"
  let ?s0 = "server_init 3 4 quiet_kernel"
  let ?s1 = "\<lparr>clients = [?c], all_fds = {3, 4}, max_fd = 4, client_count = 0, client_id = 0,
      kern = ?k\<rparr>"
  let ?s2 = "\<lparr>clients = [?c], all_fds = {3, 4, 5}, max_fd = 5, client_count = 0, client_id = 0,
      kern = ?k\<rparr>"
  let ?s3 = "\<lparr>clients = [?c], all_fds = {3, 4, 5}, max_fd = 5, client_count = 1, client_id = 1,
      kern = \<lparr>opened = {3, 4, 5}, inq = (\<lambda>fd. []), wq = (\<lambda>fd. []),
              sent = (\<lambda>fd. []), tty = []\<rparr>\<rparr>"
  have i5: "insert 5 {3, 4} = {3, 4, 5::int}" by auto
  have a: "accept_connection ?s0 (Connection 5 [] [Accept 0]) True = (5, ?s1)"
    by (simp add: accept_connection_def sys_accept_def server_init_def quiet_kernel_def
        const_upd BUF_SIZE_val i5)
  have w: "write_buf_to_client ?k 5 (dec 1) (strnlen (dec 1) BUF_SIZE)
      = (2, ?k\<lparr>wq := (wq ?k)(5 := [])\<rparr>)"
    using write_buf_to_client_zero [of 5 ?k "[]" 1 "''1''"]
    by (simp add: dec_small strnlen_def cstr_def BUF_SIZE_val)
  have i: "send_client_id ?s2 5 = (1, ?s3)"
    by (simp add: send_client_id_def Let_def w const_upd)
  have r: "srv_remove_client ?s3 5 = orphaned"
    by (simp add: srv_remove_client_def sys_close_def orphaned_def const_upd)
       (simp add: insert_Diff_if)
  have "accept_block 3 ({3} \<inter> all_fds ?s0) (Connection 5 [] [Accept 0]) True ?s0 = Again orphaned"
    by (simp add: accept_block_def a Let_def i5 i r) (simp add: server_init_def)
  then show ?thesis
    by (simp add: server_iter_def first_round_def Let_def)
qed

lemma orphaned_reached: "reaches 3 4 quiet_kernel 1 orphaned"
proof -
  have "accepts 3 first_round (server_init 3 4 quiet_kernel)"
    by (simp add: accepts_def first_round_def server_init_def)
  with reaches.round [OF reaches.start first_round_iter, of orphaned]
  show ?thesis by simp
qed

text \<open>
  \<^bold>\<open>C2.\<close> Registry and watched set do not go together, and a removal does not
  unlink. In the reachable state \<open>closing\<close> the peer of connection 5 has closed; the
  round of the pass that serves it runs the removal routine, and in the state it leaves
  the registry still holds the connection, although its descriptor is no longer watched
  and no longer open and the live count is 0. The state \<open>orphaned\<close>, in which the
  same has happened to a connection whose id met a zero-length write, is reached at the
  head of the server loop.
\<close>

theorem registry_watch_set_diverge:
  "reaches 3 4 quiet_kernel 1 closing
   \<and> map c_sock_fd (clients closing) = [5] \<and> 5 \<in> all_fds closing
   \<and> read_from_client closing 0 = (1, closing)
   \<and> process_step closing {5} 0 = Ok (closed_unread, 0)
   \<and> map c_sock_fd (clients closed_unread) = [5]
   \<and> 5 \<notin> all_fds closed_unread \<and> 5 \<notin> opened (kern closed_unread)
   \<and> client_count closed_unread = 0
   \<and> reaches 3 4 quiet_kernel 1 orphaned
   \<and> map c_sock_fd (clients orphaned) = [5] \<and> 5 \<notin> all_fds orphaned
   \<and> 5 \<notin> opened (kern orphaned)"
  using closing_reached closing_read closing_step orphaned_reached
  by (simp add: closing_def closed_unread_def orphaned_def)

subsection \<open>Client ids\<close>

text \<open>
  The id counter is changed by \<^verbatim>\<open>_send_client_id\<close> only, which adds one; so at the
  head of the loop it is the number of connections accepted so far.
\<close>

lemma deliver_client_id: "client_id (deliver wb dl p s) = client_id s"
  by (auto simp: deliver_def srv_remove_client_def split: prod.splits)

lemma fold_deliver_client_id: "client_id (fold (deliver wb dl) ps s) = client_id s"
  by (induction ps arbitrary: s) (simp_all add: deliver_client_id)

lemma broadcast_client_id: "client_id (broadcast s j wb dl) = client_id s"
  by (simp add: broadcast_fold fold_deliver_client_id)

lemma drain_client_id: "drain s i = Ok s' \<Longrightarrow> client_id s' = client_id s"
proof (induction s i rule: drain.induct)
  case (1 s i)
  show ?case
  proof (cases "i < length (clients s)")
    case False
    with "1.prems" show ?thesis by (simp add: drain.simps [of s i])
  next
    case True
    let ?c = "clients s ! i"
    obtain failed msg buf' inbuf' where
      g: "get_message (c_buf ?c) (c_inbuf ?c) = (failed, msg, buf', inbuf')"
      by (cases "get_message (c_buf ?c) (c_inbuf ?c)") auto
    show ?thesis
    proof (cases "failed \<noteq> 0")
      case f: True
      with True g "1.prems" show ?thesis by (simp add: drain.simps [of s i])
    next
      case f: False
      define s1 where "s1 = s\<lparr>clients := (clients s)[i := ?c\<lparr>c_buf := buf', c_inbuf := inbuf'\<rparr>]\<rparr>"
      define write_buf where "write_buf = take (nat (MAX_USER_MSG - 1)) (cstr msg)"
      define data_len where "data_len = int (length write_buf)"
      define res where "res = server_commands (kern s1) (c_sock_fd ?c) (cstr msg) data_len
          (client_count s1)"
      have u: "drain s i =
          (case res of Undefined \<Rightarrow> Undefined
           | Ok (ret, k') \<Rightarrow>
               if ret > 0
               then Ok (if ret = 2 then srv_remove_client (s1\<lparr>kern := k'\<rparr>) (c_sock_fd ?c)
                        else s1\<lparr>kern := k'\<rparr>)
               else drain (broadcast (s1\<lparr>kern := display_message k' write_buf\<rparr>)
                             i write_buf data_len) i)"
        using True g f
        by (subst drain.simps)
           (simp add: Let_def s1_def write_buf_def data_len_def res_def
              cong: result.case_cong prod.case_cong if_cong)
      show ?thesis
      proof (cases res)
        case Undefined
        with u "1.prems" show ?thesis by simp
      next
        case (Ok p)
        obtain ret k' where p: "p = (ret, k')" by (cases p)
        show ?thesis
        proof (cases "ret > 0")
          case r: True
          with u Ok p "1.prems" show ?thesis
            by (auto simp: srv_remove_client_def s1_def split: if_splits)
        next
          case r: False
          let ?b = "broadcast (s1\<lparr>kern := display_message k' write_buf\<rparr>) i write_buf data_len"
          from u Ok p r "1.prems" have d: "drain ?b i = Ok s'" by simp
          have "client_id s' = client_id ?b"
            using "1.IH" [OF True g [symmetric] refl refl _ refl refl refl refl _ refl r]
              f d Ok p
            by (simp add: s1_def write_buf_def data_len_def res_def)
          then show ?thesis by (simp add: broadcast_client_id s1_def)
        qed
      qed
    qed
  qed
qed

lemma read_from_client_client_id: "read_from_client s i = (r, s1) \<Longrightarrow> client_id s1 = client_id s"
  by (auto simp: read_from_client_def Let_def split: prod.splits)

lemma process_step_client_id:
  assumes "process_step s listen_fds i = Ok (s', i')"
  shows "client_id s' = client_id s"
proof (cases "c_sock_fd (clients s ! i) \<in> listen_fds")
  case False
  with assms show ?thesis by (simp add: process_step_def)
next
  case True
  obtain r s1 where rd: "read_from_client s i = (r, s1)" by (cases "read_from_client s i")
  note c1 = read_from_client_client_id [OF rd]
  show ?thesis
  proof (cases "(if r = -1 then 1 else r) = 0")
    case z: True
    then have r0: "r = 0" by (simp split: if_splits)
    with assms True rd obtain s2 where d: "drain s1 i = Ok s2" and s': "s' = s2"
      by (auto simp: process_step_def Let_def split: result.splits if_splits)
    from drain_client_id [OF d] c1 s' show ?thesis by simp
  next
    case z: False
    with assms True rd have "s' = srv_remove_client s1 (c_sock_fd (clients s1 ! i)) \<or> s' = s1"
      by (auto simp: process_step_def Let_def split: if_splits)
    with c1 show ?thesis by (auto simp: srv_remove_client_def)
  qed
qed

lemma process_client_data_client_id_aux:
  assumes "process_client_data s listen_fds i = Some y"
  shows "\<forall>s'. y = Ok s' \<longrightarrow> client_id s' = client_id s"
  using assms
proof (induction rule: process_client_data.raw_induct [rotated 1, consumes 1])
  case (1 f s listen_fds i y)
  show ?case
  proof (cases "i < length (clients s)")
    case False
    with 1(2) show ?thesis by auto
  next
    case True
    show ?thesis
    proof (cases "process_step s listen_fds i")
      case Undefined
      with True 1(2) show ?thesis by auto
    next
      case (Ok p)
      obtain s1 i1 where p: "p = (s1, i1)" by (cases p)
      with True Ok 1(2) have "f s1 listen_fds i1 = Some y" by simp
      from 1(1) [OF this] process_step_client_id [of s listen_fds i s1 i1] Ok p
      show ?thesis by simp
    qed
  qed
qed

lemma process_client_data_client_id:
  "process_client_data s listen_fds i = Some (Ok s') \<Longrightarrow> client_id s' = client_id s"
  using process_client_data_client_id_aux by blast

lemma control_block_client_id:
  "control_block server_fd listen_fds s = f \<Longrightarrow> f = Next s' \<or> f = Again s' \<or> f = Exit e s'
     \<Longrightarrow> client_id s' = client_id s"
  by (auto simp: control_block_def split: if_splits prod.splits)

lemma send_client_id_counter:
  "send_client_id s fd = (ret, s') \<Longrightarrow> client_id s' = client_id s + 1"
  by (auto simp: send_client_id_def Let_def split: prod.splits)

text \<open>
  The accept part of an iteration accepts a connection when the listening descriptor is
  ready, \<^verbatim>\<open>accept\<close> returns a descriptor and \<^verbatim>\<open>malloc\<close> succeeds.
\<close>

definition accepted :: "int \<Rightarrow> int set \<Rightarrow> accept_result \<Rightarrow> bool \<Rightarrow> bool" where
  "accepted s_sock_fd listen_fds a malloc_ok =
     (s_sock_fd \<in> listen_fds
      \<and> (case a of Connection fd rs ws \<Rightarrow> 0 \<le> fd \<and> malloc_ok | AcceptFailed \<Rightarrow> False))"

lemma accept_block_client_id:
  assumes "accept_block lfd listen_fds a m s = f" and "f = Next s' \<or> f = Again s' \<or> f = Exit e s'"
  shows "client_id s' = client_id s + (if accepted lfd listen_fds a m then 1 else 0)"
proof (cases "lfd \<in> listen_fds")
  case False
  with assms show ?thesis by (auto simp: accept_block_def accepted_def)
next
  case True
  show ?thesis
  proof (cases a)
    case AcceptFailed
    with assms True show ?thesis
      by (auto simp: accept_block_def accepted_def accept_connection_def sys_accept_def)
  next
    case (Connection fd rs ws)
    show ?thesis
    proof (cases "0 \<le> fd \<and> m")
      case False
      with assms True Connection show ?thesis
        by (auto simp: accept_block_def accepted_def accept_connection_def sys_accept_def
            split: if_splits)
    next
      case ok: True
      obtain s1 where a1: "accept_connection s a m = (fd, s1)" and c1: "client_id s1 = client_id s"
        using ok Connection by (simp add: accept_connection_def sys_accept_def)
      let ?s2 = "s1\<lparr>max_fd := max (max_fd s1) fd, all_fds := insert fd (all_fds s1)\<rparr>"
      obtain ret s3 where i: "send_client_id ?s2 fd = (ret, s3)"
        by (cases "send_client_id ?s2 fd")
      from send_client_id_counter [OF i] c1 have c3: "client_id s3 = client_id s + 1" by simp
      from assms True a1 i ok have "s' = s3 \<or> s' = srv_remove_client s3 fd"
        by (auto simp: accept_block_def Let_def split: if_splits)
      with c3 ok True Connection show ?thesis
        by (auto simp: accepted_def srv_remove_client_def)
    qed
  qed
qed

lemma accepts_accepted:
  "sel inp = Ready ready \<Longrightarrow>
     accepts lfd inp s = accepted lfd (ready \<inter> all_fds s) (acc inp) (mem inp)"
  by (auto simp: accepts_def accepted_def split: accept_result.splits)

lemma server_iter_client_id:
  assumes "server_iter lfd sfd inp s = Some (Ok f)" and "f = Next s' \<or> f = Again s'"
  shows "client_id s' = client_id s + (if accepts lfd inp s then 1 else 0)"
proof (cases "sel inp")
  case Interrupted
  with assms show ?thesis by (auto simp: server_iter_def accepts_def)
next
  case SelectFailed
  with assms show ?thesis by (auto simp: server_iter_def accepts_def)
next
  case (Ready ready)
  let ?l = "ready \<inter> all_fds s"
  note aa = accepts_accepted [OF Ready, of lfd s]
  show ?thesis
  proof (cases "accept_block lfd ?l (acc inp) (mem inp) s")
    case (Again s1)
    with assms Ready have "s' = s1" by (auto simp: server_iter_def Let_def)
    with accept_block_client_id [OF Again, of s1] aa show ?thesis by simp
  next
    case (Exit e s1)
    with assms Ready show ?thesis by (auto simp: server_iter_def Let_def)
  next
    case (Next s1)
    from accept_block_client_id [OF Next, of s1] aa
    have c1: "client_id s1 = client_id s + (if accepts lfd inp s then 1 else 0)" by simp
    show ?thesis
    proof (cases "control_block sfd ?l s1")
      case (Again s2)
      with assms Ready Next have "s' = s2" by (auto simp: server_iter_def Let_def)
      with control_block_client_id [OF Again, of s2] c1 show ?thesis by simp
    next
      case (Exit e s2)
      with assms Ready Next show ?thesis by (auto simp: server_iter_def Let_def)
    next
      case n2: (Next s2)
      from control_block_client_id [OF n2, of s2] c1
      have c2: "client_id s2 = client_id s + (if accepts lfd inp s then 1 else 0)" by simp
      from assms Ready Next n2 have "process_client_data s2 ?l 0 = Some (Ok s')"
        by (auto simp: server_iter_def Let_def split: option.splits result.splits)
      from process_client_data_client_id [OF this] c2 show ?thesis by simp
    qed
  qed
qed

lemma reaches_client_id: "reaches lfd sfd k n s \<Longrightarrow> client_id s = int n"
proof (induction rule: reaches.induct)
  case start
  show ?case by (simp add: server_init_def)
next
  case (round n s inp f s')
  from server_iter_client_id [OF round.hyps(2,3)] round.IH show ?case by simp
qed

text \<open>Decimal texts of different numbers differ: the digits give the number back.\<close>

lemma digits_value_snoc:
  "digits_value (xs @ [c]) a = 10 * digits_value xs a + (of_char c - 48)"
  by (induction xs arbitrary: a) simp_all

lemma of_char_digit:
  assumes "d < 10"
  shows "(of_char (char_of (48 + d :: nat)) :: int) = 48 + int d"
proof -
  have "(of_char (char_of (48 + d)) :: nat) = (48 + d) mod 256" by (rule of_char_of)
  also have "\<dots> = 48 + d" using assms by simp
  finally have n: "(of_char (char_of (48 + d)) :: nat) = 48 + d" .
  have "(of_char (char_of (48 + d)) :: int) = int (of_char (char_of (48 + d)))"
    by (simp only: of_nat_of_char)
  with n show ?thesis by simp
qed

lemma digits_value_decimal: "digits_value (decimal n) 0 = int n"
proof (induction n rule: decimal.induct)
  case (1 n)
  show ?case
  proof (cases "n < 10")
    case True
    from of_char_digit [OF True] True show ?thesis by (simp add: decimal.simps [of n])
  next
    case False
    have "n mod 10 < 10" by simp
    from of_char_digit [OF this] False "1.IH" [OF False]
    have "digits_value (decimal n) 0 = 10 * int (n div 10) + int (n mod 10)"
      by (simp add: decimal.simps [of n] digits_value_snoc)
    also have "\<dots> = int n" by (simp add: zdiv_int zmod_int)
    finally show ?thesis .
  qed
qed

lemma decimal_inj: "decimal a = decimal b \<Longrightarrow> a = b"
  by (metis digits_value_decimal of_nat_eq_iff)

lemma decimal_no_sign: "decimal n \<noteq> CHR ''-'' # xs"
proof
  assume "decimal n = CHR ''-'' # xs"
  then have "CHR ''-'' \<in> set (decimal n)" by simp
  from decimal_digits [OF this] show False by (simp add: isdigit_def)
qed

lemma dec_inj: "dec a = dec b \<Longrightarrow> a = b"
proof -
  assume e: "dec a = dec b"
  show "a = b"
  proof (cases "a < 0")
    case a: True
    show ?thesis
    proof (cases "b < 0")
      case True
      with a e decimal_inj [of "nat (- a)" "nat (- b)"] show ?thesis by (simp add: dec_def)
    next
      case False
      with a e decimal_no_sign [of "nat b" "decimal (nat (- a))"] show ?thesis
        by (simp add: dec_def)
    qed
  next
    case a: False
    show ?thesis
    proof (cases "b < 0")
      case True
      with a e decimal_no_sign [of "nat a" "decimal (nat (- b))"] show ?thesis
        by (simp add: dec_def)
    next
      case False
      with a e decimal_inj [of "nat a" "nat b"] show ?thesis by (simp add: dec_def)
    qed
  qed
qed

lemma accept_block_healthy:
  assumes "lfd \<in> l" and "0 \<le> fd"
    and "- (2 ^ 31) \<le> client_id s + 1" and "client_id s + 1 < 2 ^ 31"
  shows "\<exists>s'. accept_block lfd l (Connection fd rs []) True s = Next s'
            \<and> sent (kern s') fd = dec (client_id s + 1) @ CRLF
            \<and> client_id s' = client_id s + 1
            \<and> map c_sock_fd (clients s') = map c_sock_fd (clients s) @ [fd]
            \<and> fd \<in> all_fds s' \<and> fd \<in> opened (kern s')"
proof -
  define k1 where "k1 = (kern s)\<lparr>opened := insert fd (opened (kern s)),
      inq := (inq (kern s))(fd := rs), wq := (wq (kern s))(fd := []),
      sent := (sent (kern s))(fd := [])\<rparr>"
  define c where "c = \<lparr>c_sock_fd = fd, c_state = 0, c_buf = replicate (nat BUF_SIZE) NUL,
      c_inbuf = 0\<rparr>"
  define s1 where "s1 = s\<lparr>clients := clients s @ [c], kern := k1\<rparr>"
  have a: "accept_connection s (Connection fd rs []) True = (fd, s1)"
    using assms(2) by (simp add: accept_connection_def sys_accept_def s1_def k1_def c_def)
  define s2 where "s2 = s1\<lparr>max_fd := max (max_fd s1) fd, all_fds := insert fd (all_fds s1),
      client_id := client_id s + 1, client_count := client_count s + 1\<rparr>"
  let ?id = "dec (client_id s + 1)"
  define k2 where "k2 = k1\<lparr>sent := (sent k1)(fd := sent k1 fd @ ?id @ CRLF)\<rparr>"
  from dec_length [OF assms(3,4)] have "int (length ?id) \<le> BUF_SIZE - 2"
    by (simp add: BUF_SIZE_val)
  from write_buf_to_client_healthy [OF _ _ refl this, of fd k1]
  have w: "write_buf_to_client k1 fd ?id (int (length ?id)) = (0, k2)"
    by (simp add: k1_def k2_def)
  have i: "send_client_id (s1\<lparr>max_fd := max (max_fd s1) fd, all_fds := insert fd (all_fds s1)\<rparr>) fd
      = (0, s2\<lparr>kern := k2\<rparr>)"
    using w strnlen_dec [OF assms(3,4)]
    by (simp add: send_client_id_def Let_def s2_def s1_def)
  have "accept_block lfd l (Connection fd rs []) True s = Next (s2\<lparr>kern := k2\<rparr>)"
    using assms(1,2) a i by (simp add: accept_block_def Let_def)
  moreover have "sent (kern (s2\<lparr>kern := k2\<rparr>)) fd = ?id @ CRLF" by (simp add: k2_def k1_def)
  moreover have "client_id (s2\<lparr>kern := k2\<rparr>) = client_id s + 1" by (simp add: s2_def)
  moreover have "map c_sock_fd (clients (s2\<lparr>kern := k2\<rparr>)) = map c_sock_fd (clients s) @ [fd]"
    by (simp add: s2_def s1_def c_def)
  moreover have "fd \<in> all_fds (s2\<lparr>kern := k2\<rparr>)" "fd \<in> opened (kern (s2\<lparr>kern := k2\<rparr>))"
    by (simp_all add: s2_def k2_def k1_def)
  ultimately show ?thesis by blast
qed

text \<open>
  \<^bold>\<open>C8.\<close> In every state the server reaches at the head of its loop after
  accepting \<open>n\<close> connections, whatever was sent, received or removed in between, the
  counter is \<open>n\<close>; the next connection it accepts is sent the decimal text of
  \<open>n + 1\<close> followed by CRLF (when nothing is in the way of the write), and the counter
  becomes \<open>n + 1\<close>. So the first connection is sent \<open>1\<close>, the second \<open>2\<close>, and so
  on; and since decimal texts of different numbers differ, no id is sent twice. The
  counter is a C \<^verbatim>\<open>int\<close>: the statement is for counts below \<^verbatim>\<open>INT_MAX\<close>, where the
  increment is defined.
\<close>

theorem ids_monotone:
  assumes "reaches s_sock_fd server_fd k n s" and "int n < 2 ^ 31 - 1"
    and "s_sock_fd \<in> listen_fds" and "0 \<le> fd"
  shows "client_id s = int n
       \<and> (\<exists>s'. accept_block s_sock_fd listen_fds (Connection fd rs []) True s = Next s'
              \<and> sent (kern s') fd = dec (int n + 1) @ CRLF
              \<and> client_id s' = int n + 1)
       \<and> (\<forall>m. m \<noteq> n \<longrightarrow> dec (int m + 1) \<noteq> dec (int n + 1))"
proof -
  have c: "client_id s = int n" by (rule reaches_client_id [OF assms(1)])
  have lo: "- (2 ^ 31) \<le> client_id s + 1" unfolding c by simp
  have hi: "client_id s + 1 < 2 ^ 31" unfolding c using assms(2) by simp
  from accept_block_healthy [OF assms(3,4) lo hi, of rs] obtain s'
    where "accept_block s_sock_fd listen_fds (Connection fd rs []) True s = Next s'"
      and "sent (kern s') fd = dec (client_id s + 1) @ CRLF"
      and "client_id s' = client_id s + 1"
    by blast
  then have e: "\<exists>s'. accept_block s_sock_fd listen_fds (Connection fd rs []) True s = Next s'
              \<and> sent (kern s') fd = dec (int n + 1) @ CRLF
              \<and> client_id s' = int n + 1"
    unfolding c by blast
  have "\<forall>m. m \<noteq> n \<longrightarrow> dec (int m + 1) \<noteq> dec (int n + 1)"
  proof (intro allI impI notI)
    fix m assume "m \<noteq> n" and "dec (int m + 1) = dec (int n + 1)"
    from dec_inj [OF this(2)] this(1) show False by simp
  qed
  with c e show ?thesis by blast
qed

text \<open>
  In the state \<open>orphaned\<close> the first connection has been accepted and removed again;
  the connection accepted next is sent \<open>2\<close>.
\<close>

theorem ids_monotone_witness:
  "reaches 3 4 quiet_kernel 1 orphaned
   \<and> client_id orphaned = 1
   \<and> (\<exists>s'. accept_block 3 {3} (Connection 6 [] []) True orphaned = Next s'
          \<and> sent (kern s') 6 = ''2'' @ CRLF \<and> client_id s' = 2)
   \<and> dec 1 \<noteq> dec 2"
proof -
  have h: "int 1 < 2 ^ 31 - 1" "(3::int) \<in> {3}" "(0::int) \<le> 6" by simp_all
  from ids_monotone [OF orphaned_reached h, of "[]"]
  have "client_id orphaned = 1"
    and "\<exists>s'. accept_block 3 {3} (Connection 6 [] []) True orphaned = Next s'
          \<and> sent (kern s') 6 = dec 2 @ CRLF \<and> client_id s' = 2"
    and "\<forall>m. m \<noteq> 1 \<longrightarrow> dec (int m + 1) \<noteq> dec 2"
    by simp_all
  moreover from this(3) have "(0::nat) \<noteq> 1 \<longrightarrow> dec (int 0 + 1) \<noteq> dec 2" by (rule spec)
  ultimately show ?thesis using orphaned_reached by (simp add: dec_small)
qed

end
